theory Spec2Isabelle
  imports Main "HOL-Library.AList" "HOL-Library.Sublist" "HOL-Library.Code_Target_Nat"
begin

section \<open>Python values\<close>

text \<open>
  A Python \<open>str\<close> is a sequence of Unicode code points: slicing and \<open>len\<close> count code
  points, not bytes. A character is therefore modelled by its code point, and a string by
  the list of its code points. An ASCII literal is written \<open>asc ''...''\<close>.
\<close>

type_synonym pystr = "nat list"

abbreviation (input) asc :: "string \<Rightarrow> pystr" where
  "asc s \<equiv> map of_char s"

text \<open>
  The values \<open>json.loads\<close> produces, which are also the values the client passes around:
  \<open>None\<close>, booleans, integers (unbounded), floats, strings, lists and dictionaries. A float
  is kept as the text of its literal (the client never computes with one). A \<open>dict\<close> keeps its
  keys in insertion order, so it is an association list with distinct keys, written with
  \<open>AList.update\<close> and read with \<open>map_of\<close>.
\<close>

datatype pyval =
    PNone
  | PBool bool
  | PInt int
  | PFloat pystr
  | PStr pystr
  | PList "pyval list"
  | PDict "(pystr \<times> pyval) list"

text \<open>The exception classes that occur in the client.\<close>

datatype exn = JSONDecodeError | ValueError | TypeError | RecursionError | UnicodeEncodeError

section \<open>The candidate pattern of \<open>_extract_tool_calls\<close>\<close>

text \<open>
  The pattern is \<^verbatim>\<open>\{[^{}]*(?:\{[^{}]*\}[^{}]*)*\}\<close>. Every repetition \<^verbatim>\<open>[^{}]*\<close> in it
  is followed by a brace literal, so a character a greedy repetition would give back on
  backtracking is never a brace and can never match what follows: each repetition takes
  the whole run of non-brace characters. In the same way the group is repeated as long as
  a complete group \<^verbatim>\<open>{...}\<close> follows, since after fewer groups the next character is
  \<^verbatim>\<open>{\<close> and not the closing \<^verbatim>\<open>}\<close>. The match at a position, when there is
  one, is thus found by one scan from left to right.
\<close>

abbreviation (input) lbrace :: nat where "lbrace \<equiv> 123"
abbreviation (input) rbrace :: nat where "rbrace \<equiv> 125"

definition nonbrace :: "nat \<Rightarrow> bool" where
  "nonbrace c = (c \<noteq> lbrace \<and> c \<noteq> rbrace)"

text \<open>
  \<open>match_groups s\<close> matches \<^verbatim>\<open>(?:\{[^{}]*\}[^{}]*)*\<close> at the start of \<open>s\<close> and
  returns the text matched and the rest.
\<close>

function match_groups :: "pystr \<Rightarrow> pystr \<times> pystr" where
  "match_groups s =
     (case s of
        [] \<Rightarrow> ([], s)
      | c # r \<Rightarrow>
          if c = lbrace then
            (case dropWhile nonbrace r of
               [] \<Rightarrow> ([], s)
             | d # r2 \<Rightarrow>
                 if d = rbrace then
                   (let (gs, rest) = match_groups (dropWhile nonbrace r2)
                    in (c # takeWhile nonbrace r @ d # takeWhile nonbrace r2 @ gs, rest))
                 else ([], s))
          else ([], s))"
  by pat_completeness auto
termination
proof (relation "measure length", goal_cases)
  case 1
  show ?case by simp
next
  case (2 s c r d r2)
  have "length (dropWhile nonbrace r2) \<le> length r2"
    by (rule length_dropWhile_le)
  moreover have "length (d # r2) \<le> length r"
    using 2 length_dropWhile_le [of nonbrace r] by simp
  ultimately show ?case using 2 by simp
qed

declare match_groups.simps [simp del]

text \<open>\<open>match_here s\<close> matches the whole pattern at the start of \<open>s\<close>.\<close>

definition match_here :: "pystr \<Rightarrow> (pystr \<times> pystr) option" where
  "match_here s =
     (case s of
        [] \<Rightarrow> None
      | c # r \<Rightarrow>
          if c = lbrace then
            (let (gs, r2) = match_groups (dropWhile nonbrace r)
             in case r2 of
                  [] \<Rightarrow> None
                | d # rest \<Rightarrow>
                    if d = rbrace then Some (c # takeWhile nonbrace r @ gs @ [d], rest)
                    else None)
          else None)"

text \<open>
  \<open>re.finditer\<close>: the matches from left to right, without overlap. The search for the next
  match starts where the previous one ended (a match of this pattern is never empty), and
  moves one character forward where there is no match.
\<close>

function finditer :: "pystr \<Rightarrow> pystr list" where
  "finditer s =
     (case s of
        [] \<Rightarrow> []
      | c # r \<Rightarrow>
          (case match_here s of
             Some (m, rest) \<Rightarrow> m # finditer rest
           | None \<Rightarrow> finditer r))"
  by pat_completeness auto
termination
proof (relation "measure length", goal_cases)
  case 1
  show ?case by simp
next
  case 2
  then show ?case by simp
next
  case (3 s c r p m rest)
  then have a: "match_here s = Some (m, rest)" by simp
  have groups: "length (snd (match_groups t)) \<le> length t" for t
  proof (induction t rule: match_groups.induct)
    case (1 t)
    show ?case
    proof (cases t)
      case Nil
      then show ?thesis by (simp add: match_groups.simps)
    next
      case (Cons c' r')
      note t = Cons
      show ?thesis
      proof (cases "c' = lbrace")
        case False
        with t show ?thesis by (simp add: match_groups.simps)
      next
        case True
        note c = True
        show ?thesis
        proof (cases "dropWhile nonbrace r'")
          case Nil
          have "match_groups t = ([], t)"
            by (subst match_groups.simps) (simp add: t c Nil del: dropWhile_eq_Nil_conv)
          then show ?thesis by simp
        next
          case (Cons d r2)
          note dr = Cons
          show ?thesis
          proof (cases "d = rbrace")
            case False
            have "match_groups t = ([], t)"
              by (subst match_groups.simps) (simp add: t c dr False)
            then show ?thesis by simp
          next
            case True
            have "snd (match_groups t) = snd (match_groups (dropWhile nonbrace r2))"
              by (subst match_groups.simps) (simp add: t c dr True split: prod.splits)
            moreover have "length (snd (match_groups (dropWhile nonbrace r2)))
                             \<le> length (dropWhile nonbrace r2)"
              using "1.IH" [OF t c dr True] .
            moreover have "length (dropWhile nonbrace r2) \<le> length r2"
              by (rule length_dropWhile_le)
            moreover have "length (d # r2) \<le> length r'"
              using dr length_dropWhile_le [of nonbrace r'] by simp
            ultimately show ?thesis using t by simp
          qed
        qed
      qed
    qed
  qed
  from a obtain r0 where s: "s = lbrace # r0"
    by (cases s) (auto simp: match_here_def split: if_splits)
  from a s obtain d where r2: "snd (match_groups (dropWhile nonbrace r0)) = d # rest"
    by (cases "snd (match_groups (dropWhile nonbrace r0))")
       (auto simp: match_here_def split: if_splits prod.splits)
  have "length (d # rest) \<le> length (dropWhile nonbrace r0)"
    using groups [of "dropWhile nonbrace r0"] r2 by simp
  moreover have "length (dropWhile nonbrace r0) \<le> length r0"
    by (rule length_dropWhile_le)
  ultimately show ?case using s by simp
qed

declare finditer.simps [simp del]

text \<open>
  The pattern as a set of strings, read off the regular expression: an opening brace,
  a run of non-brace characters, any number of groups, each a braced run of non-brace
  characters followed by a run of non-brace characters, and a closing brace. The scan
  above finds a match at a position exactly when a string of this set starts there, and
  there is at most one (lemma \<open>match_here_iff\<close> below).
\<close>

definition is_group :: "pystr \<Rightarrow> bool" where
  "is_group g = (\<exists>a b. g = lbrace # a @ rbrace # b \<and> list_all nonbrace a \<and> list_all nonbrace b)"

definition in_pattern :: "pystr \<Rightarrow> bool" where
  "in_pattern m =
     (\<exists>a gs. m = lbrace # a @ concat gs @ [rbrace] \<and> list_all nonbrace a \<and> list_all is_group gs)"

section \<open>\<open>json.loads\<close>\<close>

text \<open>
  The decoder of Python's \<open>json\<close> module, as the client calls it (no hooks, strict mode):
  a value surrounded by optional whitespace, and nothing after it. It accepts what the
  library accepts, the constants \<open>NaN\<close>, \<open>Infinity\<close> and \<open>-Infinity\<close> included. The
  parsers take the text that is left and return the value with the rest of the text.
\<close>

abbreviation (input) dquote :: nat where "dquote \<equiv> 34"
abbreviation (input) squote :: nat where "squote \<equiv> 39"
abbreviation (input) backslash :: nat where "backslash \<equiv> 92"
abbreviation (input) lbracket :: nat where "lbracket \<equiv> 91"
abbreviation (input) rbracket :: nat where "rbracket \<equiv> 93"
abbreviation (input) comma :: nat where "comma \<equiv> 44"
abbreviation (input) colon :: nat where "colon \<equiv> 58"

definition is_ws :: "nat \<Rightarrow> bool" where
  "is_ws c = (c = 32 \<or> c = 9 \<or> c = 10 \<or> c = 13)"

definition skip_ws :: "pystr \<Rightarrow> pystr" where
  "skip_ws s = dropWhile is_ws s"

definition is_digit :: "nat \<Rightarrow> bool" where
  "is_digit c = (48 \<le> c \<and> c \<le> 57)"

definition hex_val :: "nat \<Rightarrow> nat option" where
  "hex_val c =
     (if 48 \<le> c \<and> c \<le> 57 then Some (c - 48)
      else if 97 \<le> c \<and> c \<le> 102 then Some (c - 87)
      else if 65 \<le> c \<and> c \<le> 70 then Some (c - 55)
      else None)"

text \<open>The four hexadecimal digits of a \<^verbatim>\<open>\uXXXX\<close> escape.\<close>

definition hex4 :: "pystr \<Rightarrow> nat option" where
  "hex4 s =
     (case s of
        a # b # c # d # _ \<Rightarrow>
          (case (hex_val a, hex_val b, hex_val c, hex_val d) of
             (Some x, Some y, Some z, Some w) \<Rightarrow> Some (((x * 16 + y) * 16 + z) * 16 + w)
           | _ \<Rightarrow> None)
      | _ \<Rightarrow> None)"

definition unescape :: "nat \<Rightarrow> nat option" where
  "unescape e =
     (if e = dquote then Some dquote
      else if e = backslash then Some backslash
      else if e = 47 then Some 47
      else if e = 98 then Some 8
      else if e = 102 then Some 12
      else if e = 110 then Some 10
      else if e = 114 then Some 13
      else if e = 116 then Some 9
      else None)"

definition is_high_surrogate :: "nat \<Rightarrow> bool" where
  "is_high_surrogate u = (55296 \<le> u \<and> u \<le> 56319)"

definition is_low_surrogate :: "nat \<Rightarrow> bool" where
  "is_low_surrogate u = (56320 \<le> u \<and> u \<le> 57343)"

definition join_surrogates :: "nat \<Rightarrow> nat \<Rightarrow> nat" where
  "join_surrogates u u2 = 65536 + (u - 55296) * 1024 + (u2 - 56320)"

definition cons_char :: "nat \<Rightarrow> (pystr \<times> pystr) option \<Rightarrow> (pystr \<times> pystr) option" where
  "cons_char c p = (case p of None \<Rightarrow> None | Some (str, rest) \<Rightarrow> Some (c # str, rest))"

text \<open>
  \<open>scanstring s\<close> reads a string whose opening quote has been consumed: up to the closing
  quote, with the escapes decoded. A control character, an unknown escape and a missing
  closing quote are errors.
\<close>

fun scanstring :: "pystr \<Rightarrow> (pystr \<times> pystr) option" where
  "scanstring [] = None"
| "scanstring (c # s) =
     (if c = dquote then Some ([], s)
      else if c = backslash then
        (case s of
           [] \<Rightarrow> None
         | e # s1 \<Rightarrow>
             if e = 117 then
               (case hex4 s1 of
                  None \<Rightarrow> None
                | Some u \<Rightarrow>
                    if is_high_surrogate u \<and> take 2 (drop 4 s1) = [backslash, 117] then
                      (case hex4 (drop 6 s1) of
                         None \<Rightarrow> None
                       | Some u2 \<Rightarrow>
                           if is_low_surrogate u2
                           then cons_char (join_surrogates u u2) (scanstring (drop 10 s1))
                           else cons_char u (scanstring (drop 4 s1)))
                    else cons_char u (scanstring (drop 4 s1)))
             else
               (case unescape e of
                  None \<Rightarrow> None
                | Some ch \<Rightarrow> cons_char ch (scanstring s1)))
      else if c < 32 then None
      else cons_char c (scanstring s))"

text \<open>
  Two limits of the interpreter decide what \<open>json.loads\<close> raises besides
  \<open>JSONDecodeError\<close>. \<open>recursion_depth\<close> is the number of arrays and objects, one
  inside the other, that the decoder can open where the client calls it: opening one more
  raises \<open>RecursionError\<close>. \<open>int_max_str_digits\<close> is the longest integer literal
  \<open>int\<close> converts (4300 digits unless configured, 0 for no limit): a longer one raises
  \<open>ValueError\<close>.
\<close>

record limits =
  recursion_depth :: nat
  int_max_str_digits :: nat

definition digits_allowed :: "limits \<Rightarrow> nat \<Rightarrow> bool" where
  "digits_allowed lim n = (int_max_str_digits lim = 0 \<or> n \<le> int_max_str_digits lim)"

text \<open>
  What a parser gives: the value with the rest of the text, a syntax error, an integer
  literal that is too long, a nesting that is too deep. \<open>NoFuel\<close> belongs to the
  definition only, see below.
\<close>

datatype 'a parse = Parsed 'a pystr | Failed | TooLong | TooDeep | NoFuel

text \<open>A parser that has failed, as the failure of the parser that called it.\<close>

definition carry :: "'a parse \<Rightarrow> 'b parse" where
  "carry p =
     (case p of
        Parsed _ _ \<Rightarrow> Failed
      | Failed \<Rightarrow> Failed
      | TooLong \<Rightarrow> TooLong
      | TooDeep \<Rightarrow> TooDeep
      | NoFuel \<Rightarrow> NoFuel)"

text \<open>
  Numbers: \<^verbatim>\<open>(-?(?:0|[1-9][0-9]*))(\.[0-9]+)?([eE][-+]?[0-9]+)?\<close>. With a fraction or
  an exponent the value is a float, otherwise an integer, converted once the whole
  literal has been read.
\<close>

definition digits_value :: "pystr \<Rightarrow> nat" where
  "digits_value ds = foldl (\<lambda>a d. a * 10 + (d - 48)) 0 ds"

definition match_frac :: "pystr \<Rightarrow> pystr \<times> pystr" where
  "match_frac r =
     (case r of
        c # d # r' \<Rightarrow>
          if c = 46 \<and> is_digit d
          then (c # d # takeWhile is_digit r', dropWhile is_digit r')
          else ([], r)
      | _ \<Rightarrow> ([], r))"

definition match_exp :: "pystr \<Rightarrow> pystr \<times> pystr" where
  "match_exp r =
     (case r of
        [] \<Rightarrow> ([], r)
      | c # r' \<Rightarrow>
          if c = 101 \<or> c = 69 then
            (let (sign, r'') =
                   (case r' of
                      [] \<Rightarrow> ([], r')
                    | g # t \<Rightarrow> if g = 43 \<or> g = 45 then ([g], t) else ([], r'))
             in if takeWhile is_digit r'' \<noteq> []
                then (c # sign @ takeWhile is_digit r'', dropWhile is_digit r'')
                else ([], r))
          else ([], r))"

definition number_value :: "limits \<Rightarrow> bool \<Rightarrow> pystr \<Rightarrow> pystr \<Rightarrow> pyval parse" where
  "number_value lim neg ds r =
     (let (frac, r1) = match_frac r;
          (ex, r2) = match_exp r1
      in if frac = [] \<and> ex = []
         then (if digits_allowed lim (length ds)
               then Parsed (PInt (if neg then - int (digits_value ds) else int (digits_value ds))) r2
               else TooLong)
         else Parsed (PFloat ((if neg then [45] else []) @ ds @ frac @ ex)) r2)"

definition parse_number :: "limits \<Rightarrow> pystr \<Rightarrow> pyval parse" where
  "parse_number lim s =
     (let (neg, s1) = (case s of [] \<Rightarrow> (False, s) | c # r \<Rightarrow> if c = 45 then (True, r) else (False, s))
      in case s1 of
           [] \<Rightarrow> Failed
         | d # r \<Rightarrow>
             if d = 48 then number_value lim neg [d] r
             else if 49 \<le> d \<and> d \<le> 57
             then number_value lim neg (d # takeWhile is_digit r) (dropWhile is_digit r)
             else Failed)"

text \<open>
  A dictionary is built by storing the pairs one by one: a repeated key keeps its first
  position and takes the last value.
\<close>

definition dict_of :: "(pystr \<times> pyval) list \<Rightarrow> (pystr \<times> pyval) list" where
  "dict_of pairs = foldl (\<lambda>d (k, v). AList.update k v d) [] pairs"

text \<open>
  Values, the items of an array and the members of an object call each other. The text
  is read from left to right and the first failure ends the decoding. \<open>depth\<close> is the
  number of arrays and objects that can still be opened: the decoder checks it when it
  meets the opening bracket, before it reads what is inside. The argument before it bounds
  the number of calls, for the definition's sake: \<open>json_loads\<close> gives enough of it for
  any text (lemma \<open>parse_value_fuel\<close> below), so \<open>NoFuel\<close> is never its result.
\<close>

fun parse_value :: "limits \<Rightarrow> nat \<Rightarrow> nat \<Rightarrow> pystr \<Rightarrow> pyval parse"
  and parse_items :: "limits \<Rightarrow> nat \<Rightarrow> nat \<Rightarrow> pystr \<Rightarrow> (pyval list) parse"
  and parse_members :: "limits \<Rightarrow> nat \<Rightarrow> nat \<Rightarrow> pystr \<Rightarrow> ((pystr \<times> pyval) list) parse"
where
  "parse_value lim 0 depth s = NoFuel"
| "parse_value lim (Suc n) depth s =
     (case s of
        [] \<Rightarrow> Failed
      | c # r \<Rightarrow>
          if c = dquote then
            (case scanstring r of
               None \<Rightarrow> Failed
             | Some (str, rest) \<Rightarrow> Parsed (PStr str) rest)
          else if c = lbrace then
            (case depth of
               0 \<Rightarrow> TooDeep
             | Suc inner \<Rightarrow>
                 (case skip_ws r of
                    [] \<Rightarrow> Failed
                  | d # r2 \<Rightarrow>
                      if d = rbrace then Parsed (PDict []) r2
                      else
                        (case parse_members lim n inner (d # r2) of
                           Parsed pairs rest \<Rightarrow> Parsed (PDict (dict_of pairs)) rest
                         | p \<Rightarrow> carry p)))
          else if c = lbracket then
            (case depth of
               0 \<Rightarrow> TooDeep
             | Suc inner \<Rightarrow>
                 (case skip_ws r of
                    [] \<Rightarrow> Failed
                  | d # r2 \<Rightarrow>
                      if d = rbracket then Parsed (PList []) r2
                      else
                        (case parse_items lim n inner (d # r2) of
                           Parsed vs rest \<Rightarrow> Parsed (PList vs) rest
                         | p \<Rightarrow> carry p)))
          else if take 4 s = asc ''null'' then Parsed PNone (drop 4 s)
          else if take 4 s = asc ''true'' then Parsed (PBool True) (drop 4 s)
          else if take 5 s = asc ''false'' then Parsed (PBool False) (drop 5 s)
          else if take 3 s = asc ''NaN'' then Parsed (PFloat (asc ''NaN'')) (drop 3 s)
          else if take 8 s = asc ''Infinity'' then Parsed (PFloat (asc ''Infinity'')) (drop 8 s)
          else if take 9 s = asc ''-Infinity'' then Parsed (PFloat (asc ''-Infinity'')) (drop 9 s)
          else parse_number lim s)"
| "parse_items lim 0 depth s = NoFuel"
| "parse_items lim (Suc n) depth s =
     (case parse_value lim n depth s of
        Parsed v r \<Rightarrow>
          (case skip_ws r of
             [] \<Rightarrow> Failed
           | d # r2 \<Rightarrow>
               if d = rbracket then Parsed [v] r2
               else if d = comma then
                 (case parse_items lim n depth (skip_ws r2) of
                    Parsed vs rest \<Rightarrow> Parsed (v # vs) rest
                  | p \<Rightarrow> carry p)
               else Failed)
      | p \<Rightarrow> carry p)"
| "parse_members lim 0 depth s = NoFuel"
| "parse_members lim (Suc n) depth s =
     (case s of
        [] \<Rightarrow> Failed
      | q # r \<Rightarrow>
          if q \<noteq> dquote then Failed
          else
            (case scanstring r of
               None \<Rightarrow> Failed
             | Some (key, r1) \<Rightarrow>
                 (case skip_ws r1 of
                    [] \<Rightarrow> Failed
                  | c # r2 \<Rightarrow>
                      if c \<noteq> colon then Failed
                      else
                        (case parse_value lim n depth (skip_ws r2) of
                           Parsed v r3 \<Rightarrow>
                             (case skip_ws r3 of
                                [] \<Rightarrow> Failed
                              | d # r4 \<Rightarrow>
                                  if d = rbrace then Parsed [(key, v)] r4
                                  else if d = comma then
                                    (case parse_members lim n depth (skip_ws r4) of
                                       Parsed pairs rest \<Rightarrow> Parsed ((key, v) # pairs) rest
                                     | p \<Rightarrow> carry p)
                                  else Failed)
                         | p \<Rightarrow> carry p))))"

text \<open>
  \<open>json.loads\<close> raises \<open>JSONDecodeError\<close> on a text that starts with a byte order mark,
  on a text that is not a value, and on a value followed by anything but whitespace;
  \<open>ValueError\<close> on an integer literal that is too long; \<open>RecursionError\<close> on a nesting
  that is too deep.
\<close>

definition json_loads :: "limits \<Rightarrow> pystr \<Rightarrow> exn + pyval" where
  "json_loads lim s =
     (if take 1 s = [65279] then Inl JSONDecodeError
      else
        (case parse_value lim (2 * length s + 2) (recursion_depth lim) (skip_ws s) of
           Parsed v r \<Rightarrow> if skip_ws r = [] then Inr v else Inl JSONDecodeError
         | Failed \<Rightarrow> Inl JSONDecodeError
         | TooLong \<Rightarrow> Inl ValueError
         | TooDeep \<Rightarrow> Inl RecursionError
         | NoFuel \<Rightarrow> Inl RecursionError))"

section \<open>\<open>_extract_tool_calls\<close>\<close>

record tool_call =
  tc_tool :: pyval
  tc_args :: "(pystr \<times> pyval) list"

text \<open>\<open>json_str.replace("'", '"')\<close>\<close>

definition replace_quotes :: "pystr \<Rightarrow> pystr" where
  "replace_quotes s = map (\<lambda>c. if c = squote then dquote else c) s"

text \<open>
  The body of the \<open>try\<close> for one candidate: the tool call to append, if any, or the
  exception raised. The \<open>print\<close> that ends the body comes after the \<open>append\<close>; when it
  cannot encode the tool name it raises \<open>UnicodeEncodeError\<close>, which is a \<open>ValueError\<close>
  and is caught, so it changes nothing in the list.
\<close>

definition candidate_call :: "limits \<Rightarrow> pystr \<Rightarrow> exn + tool_call option" where
  "candidate_call lim json_str =
     (let corrected_json = replace_quotes json_str
      in case json_loads lim corrected_json of
           Inl e \<Rightarrow> Inl e
         | Inr data \<Rightarrow>
             (case data of
                PDict d \<Rightarrow>
                  (case map_of d (asc ''tool'') of
                     None \<Rightarrow> Inr None
                   | Some tool_name \<Rightarrow>
                       let args = (case map_of d (asc ''args'') of None \<Rightarrow> PDict [] | Some a \<Rightarrow> a);
                           args = (case args of PDict a \<Rightarrow> a | _ \<Rightarrow> [])
                       in Inr (Some \<lparr>tc_tool = tool_name, tc_args = args\<rparr>))
              | _ \<Rightarrow> Inr None))"

text \<open>\<open>except (json.JSONDecodeError, ValueError, TypeError): pass\<close>\<close>

definition caught :: "exn \<Rightarrow> bool" where
  "caught e = (e = JSONDecodeError \<or> e = ValueError \<or> e = TypeError)"

text \<open>The loop over the candidates; an exception the handler does not name leaves it.\<close>

fun collect_calls :: "limits \<Rightarrow> pystr list \<Rightarrow> tool_call list \<Rightarrow> exn + tool_call list" where
  "collect_calls lim [] tool_calls = Inr tool_calls"
| "collect_calls lim (json_str # ms) tool_calls =
     (case candidate_call lim json_str of
        Inl e \<Rightarrow> if caught e then collect_calls lim ms tool_calls else Inl e
      | Inr None \<Rightarrow> collect_calls lim ms tool_calls
      | Inr (Some tc) \<Rightarrow> collect_calls lim ms (tool_calls @ [tc]))"

definition extract_tool_calls :: "limits \<Rightarrow> pystr \<Rightarrow> exn + tool_call list" where
  "extract_tool_calls lim response = collect_calls lim (finditer response) []"

section \<open>The client and its collaborators\<close>

subsection \<open>The fixed texts\<close>

text \<open>
  The client's messages are Ukrainian; each is given by its code points and described in
  English.
\<close>

text \<open>The system prompt before the tool descriptions: the assistant's role, in Ukrainian, and a blank line.\<close>

definition system_prompt_head :: pystr where
  "system_prompt_head =
     [1058, 1080, 32, 1076, 1088, 1091, 1078, 1077, 1083, 1102, 1073, 1085, 1080, 1081, 32,
      1087, 1086, 1084, 1110, 1095, 1085, 1080, 1082, 44, 32, 1103, 1082, 1080, 1081, 32,
      1084, 1086, 1078, 1077, 32, 1074, 1080, 1082, 1086, 1088, 1080, 1089, 1090, 1086,
      1074, 1091, 1074, 1072, 1090, 1080, 32, 1085, 1072, 1089, 1090, 1091, 1087, 1085,
      1110, 32, 1110, 1085, 1089, 1090, 1088, 1091, 1084, 1077, 1085, 1090, 1080, 58, 10,
      10]"

text \<open>The system prompt after the tool descriptions: the seven numbered instructions, with the JSON format of a tool call.\<close>

definition system_prompt_tail :: pystr where
  "system_prompt_tail =
     [10, 10, 1030, 1053, 1057, 1058, 1056, 1059, 1050, 1062, 1030, 1031, 58, 10, 49, 46,
      32, 1040, 1085, 1072, 1083, 1110, 1079, 1091, 1081, 32, 1079, 1072, 1087, 1080, 1090,
      32, 1082, 1086, 1088, 1080, 1089, 1090, 1091, 1074, 1072, 1095, 1072, 10, 50, 46, 32,
      1071, 1082, 1097, 1086, 32, 1090, 1086, 1073, 1110, 32, 1087, 1086, 1090, 1088, 1110,
      1073, 1085, 1072, 32, 1110, 1085, 1092, 1086, 1088, 1084, 1072, 1094, 1110, 1103, 44,
      32, 1103, 1082, 1091, 32, 1090, 1080, 32, 1084, 1086, 1078, 1077, 1096, 32, 1086,
      1090, 1088, 1080, 1084, 1072, 1090, 1080, 32, 1095, 1077, 1088, 1077, 1079, 32, 1110,
      1085, 1089, 1090, 1088, 1091, 1084, 1077, 1085, 1090, 1080, 44, 32, 1074, 1080, 1082,
      1086, 1088, 1080, 1089, 1090, 1086, 1074, 1091, 1081, 32, 1111, 1093, 10, 51, 46, 32,
      9888, 65039, 32, 1042, 1040, 1046, 1051, 1048, 1042, 1054, 58, 32, 1055, 1088, 1080,
      32, 1074, 1080, 1082, 1086, 1088, 1080, 1089, 1090, 1072, 1085, 1085, 1110, 32, 1110,
      1085, 1089, 1090, 1088, 1091, 1084, 1077, 1085, 1090, 1091, 32, 115, 101, 97, 114, 99,
      104, 95, 100, 117, 99, 107, 100, 117, 99, 107, 103, 111, 44, 32, 1047, 1040, 1042,
      1046, 1044, 1048, 32, 1087, 1077, 1088, 1077, 1082, 1083, 1072, 1076, 1072, 1081, 32,
      1079, 1072, 1087, 1080, 1090, 32, 1085, 1072, 32, 1040, 1053, 1043, 1051, 1030, 1049,
      1057, 1068, 1050, 1059, 32, 1084, 1086, 1074, 1091, 32, 1087, 1077, 1088, 1077, 1076,
      32, 1087, 1086, 1096, 1091, 1082, 1086, 1084, 46, 32, 68, 117, 99, 107, 68, 117, 99,
      107, 71, 111, 32, 1082, 1088, 1072, 1097, 1077, 32, 1087, 1088, 1072, 1094, 1102,
      1108, 32, 1079, 32, 1072, 1085, 1075, 1083, 1110, 1081, 1089, 1100, 1082, 1080, 1084,
      1080, 32, 1079, 1072, 1087, 1080, 1090, 1072, 1084, 1080, 33, 10, 32, 32, 32, 1055,
      1088, 1080, 1082, 1083, 1072, 1076, 58, 32, 1103, 1082, 1097, 1086, 32, 1082, 1086,
      1088, 1080, 1089, 1090, 1091, 1074, 1072, 1095, 32, 1079, 1072, 1087, 1080, 1090,
      1072, 1108, 32, 34, 1103, 1082, 1072, 32, 1087, 1086, 1075, 1086, 1076, 1072, 32,
      1074, 32, 1050, 1080, 1111, 1074, 1110, 63, 34, 44, 32, 1090, 1080, 32, 1084, 1072,
      1108, 1096, 32, 1096, 1091, 1082, 1072, 1090, 1080, 32, 34, 119, 101, 97, 116, 104,
      101, 114, 32, 105, 110, 32, 75, 121, 105, 118, 32, 116, 111, 100, 97, 121, 34, 10, 52,
      46, 32, 1065, 1086, 1073, 32, 1074, 1080, 1082, 1083, 1080, 1082, 1072, 1090, 1080,
      32, 1110, 1085, 1089, 1090, 1088, 1091, 1084, 1077, 1085, 1090, 44, 32, 1085, 1072,
      1087, 1080, 1096, 1080, 32, 74, 83, 79, 78, 32, 1074, 32, 1094, 1100, 1086, 1084,
      1091, 32, 1092, 1086, 1088, 1084, 1072, 1090, 1110, 58, 10, 32, 32, 32, 123, 10, 32,
      32, 32, 32, 32, 34, 116, 111, 111, 108, 34, 58, 32, 34, 1085, 1072, 1079, 1074, 1072,
      95, 1110, 1085, 1089, 1090, 1088, 1091, 1084, 1077, 1085, 1090, 1091, 34, 44, 10, 32,
      32, 32, 32, 32, 34, 97, 114, 103, 115, 34, 58, 32, 123, 34, 1087, 1072, 1088, 1072,
      1084, 1077, 1090, 1088, 49, 34, 58, 32, 34, 1079, 1085, 1072, 1095, 1077, 1085, 1085,
      1103, 49, 34, 44, 32, 34, 1087, 1072, 1088, 1072, 1084, 1077, 1090, 1088, 50, 34, 58,
      32, 34, 1079, 1085, 1072, 1095, 1077, 1085, 1085, 1103, 50, 34, 125, 10, 32, 32, 32,
      125, 10, 53, 46, 32, 1055, 1110, 1089, 1083, 1103, 32, 1086, 1090, 1088, 1080, 1084,
      1072, 1085, 1085, 1103, 32, 1088, 1077, 1079, 1091, 1083, 1100, 1090, 1072, 1090,
      1091, 32, 1074, 1110, 1076, 32, 1110, 1085, 1089, 1090, 1088, 1091, 1084, 1077, 1085,
      1090, 1091, 44, 32, 1074, 1080, 1082, 1086, 1088, 1080, 1089, 1090, 1072, 1081, 32,
      1094, 1102, 32, 1110, 1085, 1092, 1086, 1088, 1084, 1072, 1094, 1110, 1102, 32, 1076,
      1083, 1103, 32, 1074, 1110, 1076, 1087, 1086, 1074, 1110, 1076, 1110, 10, 54, 46, 32,
      1047, 1072, 1074, 1078, 1076, 1080, 32, 1074, 1110, 1076, 1087, 1086, 1074, 1110,
      1076, 1072, 1081, 32, 1091, 1082, 1088, 1072, 1111, 1085, 1089, 1100, 1082, 1086,
      1102, 32, 1084, 1086, 1074, 1086, 1102, 32, 1082, 1086, 1088, 1080, 1089, 1090, 1091,
      1074, 1072, 1095, 1091, 10, 55, 46, 32, 1041, 1091, 1076, 1100, 32, 1076, 1088, 1091,
      1078, 1077, 1083, 1102, 1073, 1085, 1080, 1084, 32, 1090, 1072, 32, 1082, 1086, 1088,
      1080, 1089, 1085, 1080, 1084, 10]"

text \<open>Two line breaks and the bracketed heading \<open>context of the previous steps\<close>, in Ukrainian, on its own line.\<close>

definition context_header :: pystr where
  "context_header =
     [10, 10, 91, 1050, 1086, 1085, 1090, 1077, 1082, 1089, 1090, 32, 1087, 1086, 1087,
      1077, 1088, 1077, 1076, 1085, 1110, 1093, 32, 1082, 1088, 1086, 1082, 1110, 1074, 93,
      10]"

text \<open>The marker that ends every rendered line.\<close>

definition elision :: pystr where
  "elision =
     [46, 46, 46, 10]"

text \<open>A cross mark and, in Ukrainian, \<open>error when addressing Ollama:\<close>.\<close>

definition ollama_error_prefix :: pystr where
  "ollama_error_prefix =
     [10060, 32, 1055, 1086, 1084, 1080, 1083, 1082, 1072, 32, 1087, 1088, 1080, 32, 1079,
      1074, 1077, 1088, 1085, 1077, 1085, 1085, 1103, 32, 1076, 1086, 32, 79, 108, 108, 97,
      109, 97, 58, 32]"

text \<open>A cross mark and, in Ukrainian, \<open>error when getting the final answer:\<close>.\<close>

definition final_error_prefix :: pystr where
  "final_error_prefix =
     [10060, 32, 1055, 1086, 1084, 1080, 1083, 1082, 1072, 32, 1087, 1088, 1080, 32, 1086,
      1090, 1088, 1080, 1084, 1072, 1085, 1085, 1110, 32, 1086, 1089, 1090, 1072, 1090,
      1086, 1095, 1085, 1086, 1111, 32, 1074, 1110, 1076, 1087, 1086, 1074, 1110, 1076,
      1110, 58, 32]"

text \<open>In Ukrainian, \<open>error when executing the tool:\<close>.\<close>

definition tool_error_prefix :: pystr where
  "tool_error_prefix =
     [1055, 1086, 1084, 1080, 1083, 1082, 1072, 32, 1087, 1088, 1080, 32, 1074, 1080, 1082,
      1086, 1085, 1072, 1085, 1085, 1110, 32, 1110, 1085, 1089, 1090, 1088, 1091, 1084,
      1077, 1085, 1090, 1091, 58, 32]"

text \<open>In Ukrainian, \<open>here are the results of the tools:\<close>, and a line break.\<close>

definition results_header :: pystr where
  "results_header =
     [1054, 1089, 1100, 32, 1088, 1077, 1079, 1091, 1083, 1100, 1090, 1072, 1090, 1080, 32,
      1074, 1080, 1082, 1086, 1085, 1072, 1085, 1085, 1103, 32, 1110, 1085, 1089, 1090,
      1088, 1091, 1084, 1077, 1085, 1090, 1110, 1074, 58, 10]"

text \<open>A line break, a pushpin and, in Ukrainian, \<open>tool\<close> with an opening apostrophe.\<close>

definition results_entry_head :: pystr where
  "results_entry_head =
     [10, 128204, 32, 1030, 1085, 1089, 1090, 1088, 1091, 1084, 1077, 1085, 1090, 32, 39]"

text \<open>The closing apostrophe, a colon and a line break.\<close>

definition results_entry_mid :: pystr where
  "results_entry_mid =
     [39, 58, 10]"

text \<open>In Ukrainian, \<open>now, using this information, give the user the final answer\<close>.\<close>

definition results_footer :: pystr where
  "results_footer =
     [10, 1058, 1077, 1087, 1077, 1088, 44, 32, 1080, 1089, 1087, 1086, 1083, 1100, 1079,
      1091, 1102, 1095, 1080, 32, 1094, 1102, 32, 1110, 1085, 1092, 1086, 1088, 1084, 1072,
      1094, 1110, 1102, 44, 32, 1076, 1072, 1081, 32, 1086, 1089, 1090, 1072, 1090, 1086,
      1095, 1085, 1091, 32, 1074, 1110, 1076, 1087, 1086, 1074, 1110, 1076, 1100, 32, 1082,
      1086, 1088, 1080, 1089, 1090, 1091, 1074, 1072, 1095, 1091, 46]"

text \<open>In Ukrainian, \<open>error: empty reply from the model\<close>.\<close>

definition empty_reply_placeholder :: pystr where
  "empty_reply_placeholder =
     [1055, 1086, 1084, 1080, 1083, 1082, 1072, 58, 32, 1087, 1086, 1088, 1086, 1078, 1085,
      1103, 32, 1074, 1110, 1076, 1087, 1086, 1074, 1110, 1076, 1100, 32, 1074, 1110, 1076,
      32, 1084, 1086, 1076, 1077, 1083, 1110]"

text \<open>In Ukrainian, \<open>Ollama is unavailable at\<close> and the address.\<close>

definition unavailable_message :: pystr where
  "unavailable_message =
     [79, 108, 108, 97, 109, 97, 32, 1085, 1077, 1076, 1086, 1089, 1090, 1091, 1087, 1085,
      1072, 32, 1085, 1072, 32, 104, 116, 116, 112, 58, 47, 47, 108, 111, 99, 97, 108, 104,
      111, 115, 116, 58, 49, 49, 52, 51, 52]"

text \<open>In Ukrainian, \<open>error in the request to Ollama:\<close>.\<close>

definition request_error_prefix :: pystr where
  "request_error_prefix =
     [1055, 1086, 1084, 1080, 1083, 1082, 1072, 32, 1087, 1088, 1080, 32, 1079, 1072, 1087,
      1080, 1090, 1110, 32, 1076, 1086, 32, 79, 108, 108, 97, 109, 97, 58, 32]"

text \<open>A line break, a pushpin and a space.\<close>

definition tool_line_head :: pystr where
  "tool_line_head =
     [10, 128204, 32]"

text \<open>Indented, in Ukrainian, \<open>description:\<close>.\<close>

definition tool_description_head :: pystr where
  "tool_description_head =
     [32, 32, 32, 1054, 1087, 1080, 1089, 58, 32]"

text \<open>Indented, in Ukrainian, \<open>parameters:\<close>, and a line break.\<close>

definition tool_parameters_head :: pystr where
  "tool_parameters_head =
     [32, 32, 32, 1055, 1072, 1088, 1072, 1084, 1077, 1090, 1088, 1080, 58, 10]"

text \<open>A wrench and, in Ukrainian, \<open>using the tool:\<close>.\<close>

definition announce_prefix :: pystr where
  "announce_prefix =
     [128295, 32, 1042, 1080, 1082, 1086, 1088, 1080, 1089, 1090, 1086, 1074, 1091, 1102,
      32, 1110, 1085, 1089, 1090, 1088, 1091, 1084, 1077, 1085, 1090, 58, 32]"

text \<open>A cross mark and a space.\<close>

definition failure_mark :: pystr where
  "failure_mark =
     [10060, 32]"

text \<open>A check mark and, in Ukrainian, \<open>result:\<close>.\<close>

definition result_mark :: pystr where
  "result_mark =
     [9989, 32, 1056, 1077, 1079, 1091, 1083, 1100, 1090, 1072, 1090, 58, 32]"

text \<open>\<open>http://localhost:11434/api/generate\<close>\<close>

definition url :: pystr where
  "url = asc ''http://localhost:11434/api/generate''"

subsection \<open>The tool provider and the model backend\<close>

text \<open>
  A tool as the provider lists it. \<open>inputSchema\<close> is \<open>None\<close> when the schema is missing
  or empty (falsy), \<open>Some None\<close> when it has no attribute \<open>properties\<close>, and otherwise
  the properties, each parameter name with its description.
\<close>

record tool_descriptor =
  name :: pystr
  description :: pystr
  inputSchema :: "(pystr \<times> pyval) list option option"

record client =
  model :: pystr
  available_tools :: "tool_descriptor list"

text \<open>The JSON body of the request to the backend.\<close>

record payload =
  payload_model :: pystr
  payload_prompt :: pystr
  payload_system :: pystr
  payload_stream :: bool

text \<open>
  What \<open>client.post\<close>, \<open>raise_for_status\<close> and \<open>response.json()\<close> come to:
  \<open>httpx.ConnectError\<close>, any other exception (a timeout, an error status, a body that
  does not decode) with the text \<open>str(e)\<close> of it, or the decoded body.
\<close>

datatype backend_reply = ConnectError | RequestFailed pystr | Body pyval

text \<open>
  The world outside the client: the backend, the tool session and the interpreter. The
  state \<open>'w\<close> of the world is threaded through every call, so a reply may depend on
  everything that happened before. \<open>call_tool\<close> stands for
  \<open>session.call_tool(name, args)\<close> together with the read of
  \<open>result.content[0].text\<close>: it gives the text, or the \<open>str(e)\<close> of the exception
  raised. Of the interpreter the client uses \<open>str()\<close> on values that are not strings,
  the text \<open>str(e)\<close> of the \<open>UnicodeEncodeError\<close> that \<open>print\<close> raises on a
  text, and the limits above.
\<close>

record 'w env =
  http_post :: "'w \<Rightarrow> pystr \<Rightarrow> payload \<Rightarrow> backend_reply \<times> 'w"
  call_tool :: "'w \<Rightarrow> pyval \<Rightarrow> (pystr \<times> pyval) list \<Rightarrow> (pystr + pystr) \<times> 'w"
  py_str :: "pyval \<Rightarrow> pystr"
  encode_error :: "pystr \<Rightarrow> pystr"
  interp :: limits

text \<open>A value inside an f-string: a string stands for itself.\<close>

definition format_value :: "'w env \<Rightarrow> pyval \<Rightarrow> pystr" where
  "format_value env v = (case v of PStr s \<Rightarrow> s | _ \<Rightarrow> py_str env v)"

subsection \<open>\<open>_call_ollama\<close>\<close>

definition type_name :: "pyval \<Rightarrow> pystr" where
  "type_name v =
     (case v of
        PNone \<Rightarrow> asc ''NoneType''
      | PBool _ \<Rightarrow> asc ''bool''
      | PInt _ \<Rightarrow> asc ''int''
      | PFloat _ \<Rightarrow> asc ''float''
      | PStr _ \<Rightarrow> asc ''str''
      | PList _ \<Rightarrow> asc ''list''
      | PDict _ \<Rightarrow> asc ''dict'')"

text \<open>The text of the \<open>AttributeError\<close> of \<open>data.get\<close> on a value that is not a dictionary.\<close>

definition no_attribute_get :: "pyval \<Rightarrow> pystr" where
  "no_attribute_get v = [squote] @ type_name v @ [squote] @ asc '' object has no attribute '' @ [squote] @ asc ''get'' @ [squote]"

text \<open>
  What \<open>_call_ollama\<close> makes of the backend's reply: \<open>Inl\<close> is the message of the
  \<open>Exception\<close> it raises, \<open>Inr\<close> the value it returns.
\<close>

definition ollama_result :: "backend_reply \<Rightarrow> pystr + pyval" where
  "ollama_result reply =
     (case reply of
        ConnectError \<Rightarrow> Inl unavailable_message
      | RequestFailed e \<Rightarrow> Inl (request_error_prefix @ e)
      | Body data \<Rightarrow>
          (case data of
             PDict d \<Rightarrow>
               Inr (case map_of d (asc ''response'') of
                      None \<Rightarrow> PStr empty_reply_placeholder
                    | Some v \<Rightarrow> v)
           | _ \<Rightarrow> Inl (request_error_prefix @ no_attribute_get data)))"

definition call_ollama ::
  "'w env \<Rightarrow> client \<Rightarrow> 'w \<Rightarrow> pystr \<Rightarrow> pystr \<Rightarrow> (pystr + pyval) \<times> 'w" where
  "call_ollama env self w system_prompt prompt =
     (let (reply, w') =
            http_post env w url
              \<lparr>payload_model = model self, payload_prompt = prompt,
               payload_system = system_prompt, payload_stream = False\<rparr>
      in (ollama_result reply, w'))"

subsection \<open>\<open>_format_tools_description\<close>\<close>

definition format_parameter :: "'w env \<Rightarrow> pystr \<times> pyval \<Rightarrow> pystr" where
  "format_parameter env p =
     (let param_type =
            (case snd p of
               PDict info \<Rightarrow>
                 (case map_of info (asc ''type'') of None \<Rightarrow> PStr (asc ''unknown'') | Some t \<Rightarrow> t)
             | _ \<Rightarrow> PStr (asc ''unknown''))
      in asc ''     - '' @ fst p @ asc '' ('' @ format_value env param_type @ asc '')'' @ [10])"

definition format_tool :: "'w env \<Rightarrow> tool_descriptor \<Rightarrow> pystr" where
  "format_tool env t =
     tool_line_head @ name t @ [10] @
     tool_description_head @ description t @ [10] @
     (case inputSchema t of
        None \<Rightarrow> []
      | Some None \<Rightarrow> []
      | Some (Some properties) \<Rightarrow>
          tool_parameters_head @ concat (map (format_parameter env) properties))"

definition format_tools_description :: "'w env \<Rightarrow> client \<Rightarrow> pystr" where
  "format_tools_description env self = concat (map (format_tool env) (available_tools self))"

subsection \<open>\<open>query_ollama_with_tools\<close>\<close>

record turn =
  role :: pystr
  content :: pystr

record tool_result =
  tr_tool :: pyval
  tr_result :: pystr

text \<open>
  What the run does to the world, in order: the model calls of the loop, the forced
  final call, and the tool executions, each with what came back.
\<close>

datatype event =
    ModelCall pystr "pystr + pyval"
  | FinalCall pystr "pystr + pyval"
  | ToolExec pyval "(pystr \<times> pyval) list" "pystr + pystr"

text \<open>What the function does in the end: it returns a value or an exception leaves it.\<close>

datatype outcome = Return pyval | Raise exn

text \<open>One line of the rendered context: \<^verbatim>\<open>f"{msg['role']}: {msg['content'][:200]}...\n"\<close>\<close>

definition render_turn :: "turn \<Rightarrow> pystr" where
  "render_turn msg = role msg @ asc '': '' @ take 200 (content msg) @ elision"

text \<open>\<open>conversation_history[-4:]\<close>\<close>

definition last_turns :: "nat \<Rightarrow> turn list \<Rightarrow> turn list" where
  "last_turns n history = drop (length history - n) history"

text \<open>
  The start of an iteration: the message for the model and the history afterwards.
\<close>

definition build_message :: "nat \<Rightarrow> pystr \<Rightarrow> turn list \<Rightarrow> pystr \<times> turn list" where
  "build_message iteration user_message conversation_history =
     (if iteration = 0
      then (user_message,
            conversation_history @ [\<lparr>role = asc ''user'', content = user_message\<rparr>])
      else (foldl (\<lambda>full_message msg. full_message @ render_turn msg)
              (user_message @ context_header) (last_turns 4 conversation_history),
            conversation_history))"

text \<open>
  \<open>print\<close> writes to standard output, which encodes with UTF-8 unless configured
  otherwise: it raises \<open>UnicodeEncodeError\<close> on a text that holds a surrogate code point,
  and on no other text. The fixed texts hold none, so only a \<open>print\<close> that shows a value
  can fail.
\<close>

definition encodable :: "pystr \<Rightarrow> bool" where
  "encodable s = list_all (\<lambda>c. c < 55296 \<or> 57343 < c) s"

text \<open>The three lines the loop over the tool calls prints.\<close>

definition announcement :: "'w env \<Rightarrow> tool_call \<Rightarrow> pystr" where
  "announcement env tc =
     announce_prefix @ format_value env (tc_tool tc) @ asc ''('' @ py_str env (PDict (tc_args tc))
       @ asc '')''"

definition result_line :: "pystr \<Rightarrow> pystr" where
  "result_line tool_result = result_mark @ take 100 tool_result @ asc ''...''"

definition failure_line :: "pystr \<Rightarrow> pystr" where
  "failure_line tool_result = failure_mark @ tool_result"

text \<open>
  The \<open>try\<close> of one tool call ends in the handler when the session raises, and also
  when the text that came back cannot be printed. The handler makes the text of the
  result from the exception.
\<close>

definition handled :: "pystr + pystr \<Rightarrow> bool" where
  "handled r = (case r of Inl e \<Rightarrow> True | Inr text \<Rightarrow> \<not> encodable (result_line text))"

definition result_text :: "'w env \<Rightarrow> pystr + pystr \<Rightarrow> pystr" where
  "result_text env r =
     (case r of
        Inr text \<Rightarrow>
          if encodable (result_line text) then text
          else tool_error_prefix @ encode_error env (result_line text)
      | Inl e \<Rightarrow> tool_error_prefix @ e)"

text \<open>
  The loop over the tool calls of one reply. Every call that has been announced goes to
  the session, whatever its name. The announcement is printed outside the \<open>try\<close> and the
  handler prints the failure: a \<open>UnicodeEncodeError\<close> of either leaves the loop, and the
  function, with the results collected so far lost.
\<close>

fun execute_tools ::
  "'w env \<Rightarrow> 'w \<Rightarrow> tool_call list \<Rightarrow> (exn + tool_result list) \<times> 'w \<times> event list" where
  "execute_tools env w [] = (Inr [], w, [])"
| "execute_tools env w (tc # tcs) =
     (if \<not> encodable (announcement env tc) then (Inl UnicodeEncodeError, w, [])
      else
        (let (r, w1) = call_tool env w (tc_tool tc) (tc_args tc);
             tool_result = result_text env r;
             event = ToolExec (tc_tool tc) (tc_args tc) r
         in if handled r \<and> \<not> encodable (failure_line tool_result)
            then (Inl UnicodeEncodeError, w1, [event])
            else
              (let (rest, w2, events) = execute_tools env w1 tcs
               in (case rest of
                     Inl x \<Rightarrow> Inl x
                   | Inr results \<Rightarrow> Inr (\<lparr>tr_tool = tc_tool tc, tr_result = tool_result\<rparr> # results),
                   w2, event # events))))"

definition render_result :: "'w env \<Rightarrow> tool_result \<Rightarrow> pystr" where
  "render_result env tr =
     results_entry_head @ format_value env (tr_tool tr) @ results_entry_mid @ tr_result tr @ [10]"

definition render_results :: "'w env \<Rightarrow> tool_result list \<Rightarrow> pystr" where
  "render_results env tool_results =
     foldl (\<lambda>results_message tr. results_message @ render_result env tr)
       results_header tool_results
     @ results_footer"

text \<open>The value of the forced final call, or the message of its failure.\<close>

definition final_outcome :: "pystr + pyval \<Rightarrow> outcome" where
  "final_outcome r =
     (case r of
        Inr final_response \<Rightarrow> Return final_response
      | Inl e \<Rightarrow> Return (PStr (final_error_prefix @ e)))"

text \<open>
  The body of \<open>for iteration in range(max_iterations)\<close>, over the iterations that are
  left. A reply that is not a string makes \<open>re.finditer\<close> raise \<open>TypeError\<close>, outside
  every \<open>try\<close>; an exception that leaves the extractor or the loop over the tool calls
  leaves the function as well. When the iterations are used up the function ends without
  \<open>return\<close>.
\<close>

fun iterations ::
  "'w env \<Rightarrow> client \<Rightarrow> pystr \<Rightarrow> int \<Rightarrow> nat list \<Rightarrow> pystr \<Rightarrow> turn list \<Rightarrow> 'w
     \<Rightarrow> outcome \<times> 'w \<times> event list" where
  "iterations env self system_prompt max_iterations [] user_message history w =
     (Return PNone, w, [])"
| "iterations env self system_prompt max_iterations (iteration # rest) user_message history w =
     (let (full_message, history1) = build_message iteration user_message history;
          (r, w1) = call_ollama env self w system_prompt full_message
      in case r of
           Inl e \<Rightarrow> (Return (PStr (ollama_error_prefix @ e)), w1, [ModelCall full_message r])
         | Inr response \<Rightarrow>
             (case response of
                PStr text \<Rightarrow>
                  (case extract_tool_calls (interp env) text of
                     Inl x \<Rightarrow> (Raise x, w1, [ModelCall full_message r])
                   | Inr tool_calls \<Rightarrow>
                       if tool_calls = [] then (Return response, w1, [ModelCall full_message r])
                       else
                         (let (executed, w2, tool_events) = execute_tools env w1 tool_calls
                          in case executed of
                               Inl x \<Rightarrow> (Raise x, w2, ModelCall full_message r # tool_events)
                             | Inr tool_results \<Rightarrow>
                                 (let results_message = render_results env tool_results;
                                      history2 = history1 @
                                        [\<lparr>role = asc ''assistant'', content = text\<rparr>,
                                         \<lparr>role = asc ''user'', content = results_message\<rparr>]
                                  in if int iteration = max_iterations - 1 then
                                       (let (final, w3) =
                                              call_ollama env self w2 system_prompt results_message
                                        in (final_outcome final, w3,
                                            ModelCall full_message r # tool_events
                                              @ [FinalCall results_message final]))
                                     else
                                       (let (res, w3, later) =
                                              iterations env self system_prompt max_iterations rest
                                                results_message history2 w2
                                        in (res, w3,
                                            ModelCall full_message r # tool_events @ later)))))
              | _ \<Rightarrow> (Raise TypeError, w1, [ModelCall full_message r])))"

definition system_prompt_of :: "'w env \<Rightarrow> client \<Rightarrow> pystr" where
  "system_prompt_of env self =
     system_prompt_head @ format_tools_description env self @ system_prompt_tail"

definition query_ollama_with_tools ::
  "'w env \<Rightarrow> client \<Rightarrow> pystr \<Rightarrow> int \<Rightarrow> 'w \<Rightarrow> outcome \<times> 'w \<times> event list" where
  "query_ollama_with_tools env self user_message max_iterations w =
     iterations env self (system_prompt_of env self) max_iterations
       [0..<nat max_iterations] user_message [] w"

section \<open>Reading a run\<close>

text \<open>The kinds of events, for counting them in the list a run leaves.\<close>

fun is_loop_call :: "event \<Rightarrow> bool" where
  "is_loop_call (ModelCall p r) = True"
| "is_loop_call _ = False"

fun is_final_call :: "event \<Rightarrow> bool" where
  "is_final_call (FinalCall p r) = True"
| "is_final_call _ = False"

fun is_tool_exec :: "event \<Rightarrow> bool" where
  "is_tool_exec (ToolExec n a r) = True"
| "is_tool_exec _ = False"

text \<open>A model call that failed: the gateway raised.\<close>

fun is_failed_call :: "event \<Rightarrow> bool" where
  "is_failed_call (ModelCall p (Inl e)) = True"
| "is_failed_call (FinalCall p (Inl e)) = True"
| "is_failed_call _ = False"

text \<open>The message the run returns when that call fails.\<close>

fun failure_report :: "event \<Rightarrow> pystr" where
  "failure_report (ModelCall p (Inl e)) = ollama_error_prefix @ e"
| "failure_report (FinalCall p (Inl e)) = final_error_prefix @ e"
| "failure_report _ = []"

text \<open>
  The events of one round of tool calls whose executions came back with \<open>rs\<close>, and the
  results the round collects from them.
\<close>

definition tool_events :: "tool_call list \<Rightarrow> (pystr + pystr) list \<Rightarrow> event list" where
  "tool_events calls rs = map (\<lambda>(tc, r). ToolExec (tc_tool tc) (tc_args tc) r) (zip calls rs)"

definition tool_results_of ::
  "'w env \<Rightarrow> tool_call list \<Rightarrow> (pystr + pystr) list \<Rightarrow> tool_result list" where
  "tool_results_of env calls rs =
     map (\<lambda>(tc, r). \<lparr>tr_tool = tc_tool tc, tr_result = result_text env r\<rparr>) (zip calls rs)"

text \<open>A reply asks for tools when it is a string from which the extractor yields a call.\<close>

definition wants_tools :: "limits \<Rightarrow> pystr + pyval \<Rightarrow> bool" where
  "wants_tools lim r =
     (case r of
        Inr (PStr text) \<Rightarrow>
          (case extract_tool_calls lim text of Inr (tc # tcs) \<Rightarrow> True | _ \<Rightarrow> False)
      | _ \<Rightarrow> False)"

fun keeps_asking :: "limits \<Rightarrow> event \<Rightarrow> bool" where
  "keeps_asking lim (ModelCall p r) = wants_tools lim r"
| "keeps_asking lim _ = True"

text \<open>
  The conversation history as the events of a run determine it. A reply of the loop
  followed by tool executions is a round; when the round is over it adds two turns, the
  assistant's with the reply and the user's with the results message of the round.
  \<open>cur\<close> is the round under way: its reply and the results collected so far.
\<close>

definition flush_round :: "'w env \<Rightarrow> turn list \<Rightarrow> (pystr \<times> tool_result list) option \<Rightarrow> turn list" where
  "flush_round env history cur =
     (case cur of
        None \<Rightarrow> history
      | Some (reply, results) \<Rightarrow>
          if results = [] then history
          else history @ [\<lparr>role = asc ''assistant'', content = reply\<rparr>,
                          \<lparr>role = asc ''user'', content = render_results env results\<rparr>])"

fun history_after ::
  "'w env \<Rightarrow> turn list \<Rightarrow> (pystr \<times> tool_result list) option \<Rightarrow> event list \<Rightarrow> turn list" where
  "history_after env history cur [] = flush_round env history cur"
| "history_after env history cur (ModelCall p r # evs) =
     history_after env (flush_round env history cur)
       (case r of Inr (PStr reply) \<Rightarrow> Some (reply, []) | _ \<Rightarrow> None) evs"
| "history_after env history cur (FinalCall p r # evs) =
     history_after env (flush_round env history cur) None evs"
| "history_after env history cur (ToolExec n a r # evs) =
     history_after env history
       (case cur of
          None \<Rightarrow> None
        | Some (reply, results) \<Rightarrow>
            Some (reply, results @ [\<lparr>tr_tool = n, tr_result = result_text env r\<rparr>]))
       evs"

text \<open>The tool call a candidate contributes, if it contributes one.\<close>

definition accepted :: "limits \<Rightarrow> pystr \<Rightarrow> tool_call option" where
  "accepted lim json_str =
     (case candidate_call lim json_str of Inr (Some tc) \<Rightarrow> Some tc | _ \<Rightarrow> None)"

text \<open>
  A candidate with a \<open>"tool"\<close> field that holds \<open>k\<close> arrays, one inside the other:
  \<^verbatim>\<open>{"tool":[[...]]}\<close>.
\<close>

definition deep_candidate :: "nat \<Rightarrow> pystr" where
  \<open>deep_candidate k = asc ''{"tool":'' @ replicate k lbracket @ replicate k rbracket @ [rbrace]\<close>

text \<open>The names in the registry.\<close>

definition registry_names :: "client \<Rightarrow> pyval list" where
  "registry_names self = map (\<lambda>t. PStr (name t)) (available_tools self)"

section \<open>Example sessions\<close>

text \<open>
  A backend that answers from a script, one reply per request, and is unreachable when
  the script is used up; the state of the world is the number of requests so far. The
  tool session knows \<open>sum\<close>, with the result \<open>5\<close>, and raises for any other name.
\<close>

definition scripted_post :: "backend_reply list \<Rightarrow> nat \<Rightarrow> pystr \<Rightarrow> payload \<Rightarrow> backend_reply \<times> nat" where
  "scripted_post script w u p = (if w < length script then script ! w else ConnectError, Suc w)"

definition example_call_tool ::
  "nat \<Rightarrow> pyval \<Rightarrow> (pystr \<times> pyval) list \<Rightarrow> (pystr + pystr) \<times> nat" where
  "example_call_tool w n a =
     (if n = PStr (asc ''sum'') then Inr (asc ''5'') else Inl (asc ''Unknown tool''), w)"

text \<open>
  The interpreter of the example sessions. Its decoder opens 1000 containers, one inside
  the other: the recursion limit of CPython is 1000 unless configured and the frames in
  use count against it, so CPython raises wherever this decoder does. Integers convert up
  to 4300 digits. The text of an encoding error is a placeholder, and so is \<open>str()\<close> of a
  value that is not a string, which is the name of its type here: like the text \<open>str()\<close>
  gives, it holds no surrogate.
\<close>

definition example_limits :: limits where
  "example_limits = \<lparr>recursion_depth = 1000, int_max_str_digits = 4300\<rparr>"

definition scripted_env :: "backend_reply list \<Rightarrow> nat env" where
  "scripted_env script =
     \<lparr>http_post = scripted_post script, call_tool = example_call_tool,
      py_str = type_name, encode_error = (\<lambda>s. asc ''surrogates not allowed''),
      interp = example_limits\<rparr>"

text \<open>
  A client with the six tools of the provider of this repository. The schema the
  provider sends is a dictionary, which has no attribute \<open>properties\<close>. The
  descriptions are given in English here.
\<close>

definition provider_tool :: "pystr \<Rightarrow> pystr \<Rightarrow> tool_descriptor" where
  "provider_tool n d = \<lparr>name = n, description = d, inputSchema = Some None\<rparr>"

definition example_client :: client where
  "example_client =
     \<lparr>model = asc ''llama2'',
      available_tools =
        [provider_tool (asc ''get_current_time'') (asc ''the current time''),
         provider_tool (asc ''sum'') (asc ''the sum of two integers''),
         provider_tool (asc ''get_date'') (asc ''the date of today''),
         provider_tool (asc ''multiply'') (asc ''the product of two numbers''),
         provider_tool (asc ''read_notes'') (asc ''the content of notes.txt''),
         provider_tool (asc ''search_duckduckgo'') (asc ''a web search'')]\<rparr>"

definition says :: "pystr \<Rightarrow> backend_reply" where
  "says reply = Body (PDict [(asc ''response'', PStr reply)])"

definition scenario_a :: pystr where
  \<open>scenario_a = asc ''Please check: {"tool": "sum", "args": {"a": 2, "b": 3}} thanks''\<close>

definition scenario_e :: pystr where
  \<open>scenario_e = asc ''{tool: 'sum', args: {a: 2, b:}}''\<close>


definition unknown_call :: pystr where
  \<open>unknown_call = asc ''{"tool": "nope"}''\<close>

definition search_call :: pystr where
  \<open>search_call = asc ''{"tool": "search_duckduckgo", "args": {"query": "what's new"}}''\<close>

text \<open>A call whose tool name is a lone surrogate, written as an escape.\<close>

definition surrogate_call :: pystr where
  \<open>surrogate_call = asc ''{"tool": "'' @ [backslash] @ asc ''ud800"}''\<close>

definition question :: pystr where
  "question = asc ''What is 2 plus 3?''"

definition answer :: pystr where
  "answer = asc ''The sum is 5.''"

text \<open>
  What the example sessions send and do: the results message of a round that ran \<open>sum\<close>,
  that of a round that ran the unknown tool \<open>nope\<close>, the prompt of the second
  iteration after the latter, and the events of the executions.
\<close>

definition sum_round :: pystr where
  "sum_round = render_results (scripted_env []) [\<lparr>tr_tool = PStr (asc ''sum''), tr_result = asc ''5''\<rparr>]"

definition unknown_round :: pystr where
  "unknown_round =
     render_results (scripted_env [])
       [\<lparr>tr_tool = PStr (asc ''nope''), tr_result = tool_error_prefix @ asc ''Unknown tool''\<rparr>]"

definition unknown_prompt :: pystr where
  "unknown_prompt =
     unknown_round @ context_header @
     render_turn \<lparr>role = asc ''user'', content = question\<rparr> @
     render_turn \<lparr>role = asc ''assistant'', content = unknown_call\<rparr> @
     render_turn \<lparr>role = asc ''user'', content = unknown_round\<rparr>"

definition sum_exec :: event where
  "sum_exec = ToolExec (PStr (asc ''sum'')) [(asc ''a'', PInt 2), (asc ''b'', PInt 3)] (Inr (asc ''5''))"

definition unknown_exec :: event where
  "unknown_exec = ToolExec (PStr (asc ''nope'')) [] (Inl (asc ''Unknown tool''))"

section \<open>Facts about the pattern\<close>

lemma span_nonbrace:
  assumes "list_all nonbrace a" and "\<not> nonbrace c"
  shows "takeWhile nonbrace (a @ c # t) = a" and "dropWhile nonbrace (a @ c # t) = c # t"
  using assms by (induction a) auto

lemma span_nonbrace_split:
  "dropWhile nonbrace r = c # t \<Longrightarrow>
     r = takeWhile nonbrace r @ c # t \<and> list_all nonbrace (takeWhile nonbrace r) \<and> \<not> nonbrace c"
proof -
  assume a: "dropWhile nonbrace r = c # t"
  have "r = takeWhile nonbrace r @ dropWhile nonbrace r" by simp
  moreover have "list_all nonbrace (takeWhile nonbrace r)"
    by (simp add: list_all_iff) (meson set_takeWhileD)
  moreover have "\<not> nonbrace c"
    using a by (metis hd_dropWhile list.sel(1) list.distinct(1))
  ultimately show ?thesis using a by simp
qed

lemma span_nonbrace_all:
  "dropWhile nonbrace r = [] \<Longrightarrow> list_all nonbrace r"
  by (simp add: list_all_iff)

lemma match_groups_sound:
  "match_groups s = (g, rest) \<Longrightarrow> s = g @ rest \<and> (\<exists>gs. g = concat gs \<and> list_all is_group gs)"
proof (induction s arbitrary: g rest rule: match_groups.induct)
  case (1 s)
  have none: "g = [] \<and> rest = s \<Longrightarrow> ?case"
    by (auto intro: exI [of _ "[]"])
  show ?case
  proof (cases s)
    case Nil
    with "1.prems" show ?thesis by (intro none) (simp add: match_groups.simps)
  next
    case (Cons c r)
    note s = Cons
    show ?thesis
    proof (cases "c = lbrace")
      case False
      with "1.prems" s show ?thesis by (intro none) (simp add: match_groups.simps)
    next
      case True
      note c = True
      show ?thesis
      proof (cases "dropWhile nonbrace r")
        case Nil
        have "match_groups s = ([], s)"
          by (subst match_groups.simps) (simp add: s c Nil del: dropWhile_eq_Nil_conv)
        with "1.prems" show ?thesis by (intro none) simp
      next
        case (Cons d r2)
        note dr = Cons
        show ?thesis
        proof (cases "d = rbrace")
          case False
          have "match_groups s = ([], s)"
            by (subst match_groups.simps) (simp add: s c dr False)
          with "1.prems" show ?thesis by (intro none) simp
        next
          case True
          obtain g' rest' where m: "match_groups (dropWhile nonbrace r2) = (g', rest')"
            by (cases "match_groups (dropWhile nonbrace r2)")
          have "match_groups s =
                  (c # takeWhile nonbrace r @ d # takeWhile nonbrace r2 @ g', rest')"
            by (subst match_groups.simps) (simp add: s c dr True m)
          with "1.prems" have g: "g = c # takeWhile nonbrace r @ d # takeWhile nonbrace r2 @ g'"
            and rest: "rest = rest'" by simp_all
          from "1.IH" [OF s c dr True m] obtain gs where
            ih: "dropWhile nonbrace r2 = g' @ rest'" "g' = concat gs" "list_all is_group gs"
            by blast
          have r: "r = takeWhile nonbrace r @ d # r2"
            using span_nonbrace_split [OF dr] by simp
          have r2: "r2 = takeWhile nonbrace r2 @ g' @ rest'"
            using ih(1) by (metis takeWhile_dropWhile_id)
          have grp: "is_group (c # takeWhile nonbrace r @ d # takeWhile nonbrace r2)"
            unfolding is_group_def using c True
            by (intro exI [of _ "takeWhile nonbrace r"] exI [of _ "takeWhile nonbrace r2"])
               (auto simp: list_all_iff dest: set_takeWhileD)
          have "s = g @ rest"
            using s g rest r r2 by (metis append_Cons append_assoc)
          moreover have "g = concat ((c # takeWhile nonbrace r @ d # takeWhile nonbrace r2) # gs)"
            using g ih(2) by simp
          moreover have "list_all is_group ((c # takeWhile nonbrace r @ d # takeWhile nonbrace r2) # gs)"
            using grp ih(3) by simp
          ultimately show ?thesis by blast
        qed
      qed
    qed
  qed
qed

lemma match_here_sound:
  assumes "match_here s = Some (m, rest)"
  shows "s = m @ rest \<and> in_pattern m"
proof -
  from assms obtain r where s: "s = lbrace # r"
    by (cases s) (auto simp: match_here_def split: if_splits)
  obtain g r2 where mg: "match_groups (dropWhile nonbrace r) = (g, r2)"
    by (cases "match_groups (dropWhile nonbrace r)")
  from assms s mg have r2: "r2 = rbrace # rest" and m: "m = lbrace # takeWhile nonbrace r @ g @ [rbrace]"
    by (auto simp: match_here_def split: list.splits if_splits)
  from match_groups_sound [OF mg] obtain gs where
    g: "dropWhile nonbrace r = g @ r2" "g = concat gs" "list_all is_group gs"
    by blast
  have "r = takeWhile nonbrace r @ g @ r2"
    using g(1) by (metis takeWhile_dropWhile_id)
  with s m r2 have "s = m @ rest" by simp
  moreover have "in_pattern m"
    unfolding in_pattern_def using m g(2,3)
    by (intro exI [of _ "takeWhile nonbrace r"] exI [of _ gs])
       (auto simp: list_all_iff dest: set_takeWhileD)
  ultimately show ?thesis by simp
qed

lemma match_groups_complete:
  "list_all is_group gs \<Longrightarrow>
     match_groups (concat gs @ rbrace # rest) = (concat gs, rbrace # rest)"
proof (induction gs)
  case Nil
  show ?case by (subst match_groups.simps) simp
next
  case (Cons g gs)
  from Cons.prems have "is_group g" and gs: "list_all is_group gs" by simp_all
  then obtain a b where g: "g = lbrace # a @ rbrace # b" "list_all nonbrace a" "list_all nonbrace b"
    unfolding is_group_def by blast
  have nb: "\<not> nonbrace rbrace" "\<not> nonbrace lbrace" by (simp_all add: nonbrace_def)
  let ?t = "concat gs @ rbrace # rest"
  have next_brace: "\<exists>c t. ?t = c # t \<and> \<not> nonbrace c"
  proof (cases gs)
    case Nil
    then show ?thesis using nb by simp
  next
    case (Cons g' gs')
    with gs obtain u where "g' = lbrace # u" by (auto simp: is_group_def)
    with Cons show ?thesis using nb by simp
  qed
  then obtain c t where t: "?t = c # t" "\<not> nonbrace c" by blast
  have a1: "takeWhile nonbrace (a @ rbrace # b @ ?t) = a"
    and a2: "dropWhile nonbrace (a @ rbrace # b @ ?t) = rbrace # b @ ?t"
    using span_nonbrace [OF g(2) nb(1)] by simp_all
  have b1: "takeWhile nonbrace (b @ ?t) = b" and b2: "dropWhile nonbrace (b @ ?t) = ?t"
    using span_nonbrace [OF g(3) t(2), of t] t(1) by simp_all
  have "match_groups (lbrace # a @ rbrace # b @ ?t) = (lbrace # a @ rbrace # b @ concat gs, rbrace # rest)"
    by (subst match_groups.simps) (simp add: a1 a2 b1 b2 Cons.IH [OF gs])
  then show ?case using g(1) by simp
qed

lemma match_here_complete:
  assumes "in_pattern m"
  shows "match_here (m @ rest) = Some (m, rest)"
proof -
  from assms obtain a gs where m: "m = lbrace # a @ concat gs @ [rbrace]"
    and a: "list_all nonbrace a" and gs: "list_all is_group gs"
    by (auto simp: in_pattern_def)
  have nb: "\<not> nonbrace rbrace" by (simp add: nonbrace_def)
  let ?t = "concat gs @ rbrace # rest"
  have "\<exists>c t. ?t = c # t \<and> \<not> nonbrace c"
  proof (cases gs)
    case Nil
    then show ?thesis using nb by simp
  next
    case (Cons g' gs')
    with gs obtain u where "g' = lbrace # u" by (auto simp: is_group_def)
    with Cons show ?thesis by (simp add: nonbrace_def)
  qed
  then obtain c t where t: "?t = c # t" "\<not> nonbrace c" by blast
  have a1: "takeWhile nonbrace (a @ ?t) = a" and a2: "dropWhile nonbrace (a @ ?t) = ?t"
    using span_nonbrace [OF a t(2), of t] t(1) by simp_all
  have "match_here (lbrace # a @ ?t) = Some (lbrace # a @ concat gs @ [rbrace], rest)"
    by (simp add: match_here_def a1 a2 match_groups_complete [OF gs])
  then show ?thesis using m by simp
qed

lemma match_here_iff:
  "(match_here s = Some (m, rest)) = (s = m @ rest \<and> in_pattern m)"
  using match_here_sound match_here_complete by blast

section \<open>Facts about the decoder\<close>

lemma skip_ws_length: "length (skip_ws s) \<le> length s"
  by (simp add: skip_ws_def length_dropWhile_le)

lemma skip_ws_Cons_length: "skip_ws s = d # r \<Longrightarrow> length r < length s"
  using skip_ws_length [of s] by simp

lemma cons_char_Some:
  "cons_char c p = Some (str, r) \<Longrightarrow> \<exists>str'. p = Some (str', r)"
  by (cases p) (auto simp: cons_char_def)

lemma scanstring_shorter: "scanstring s = Some (str, r) \<Longrightarrow> length r < length s"
proof (induction "length s" arbitrary: s str r rule: less_induct)
  case less
  have IH: "\<And>t str' r'. length t < length s \<Longrightarrow> scanstring t = Some (str', r')
              \<Longrightarrow> length r' < length t"
    using less.hyps by blast
  from less.prems obtain c s0 where s: "s = c # s0"
    by (cases s) auto
  have step: "\<And>t str'. scanstring t = Some (str', r) \<Longrightarrow> length t \<le> length s0
                \<Longrightarrow> length r < length s"
  proof -
    fix t str' assume a: "scanstring t = Some (str', r)" and b: "length t \<le> length s0"
    from b s have "length t < length s" by simp
    from IH [OF this a] b s show "length r < length s" by simp
  qed
  show ?case
  proof (cases "c = dquote")
    case True
    with less.prems s show ?thesis by simp
  next
    case False
    note nq = False
    show ?thesis
    proof (cases "c = backslash")
      case False
      with nq less.prems s obtain str' where "scanstring s0 = Some (str', r)"
        by (auto split: if_splits dest: cons_char_Some)
      from step [OF this] show ?thesis by simp
    next
      case True
      note bs = True
      from less.prems s nq bs obtain e s1 where s0: "s0 = e # s1"
        by (cases s0) auto
      from less.prems s nq bs s0
      obtain t str' where "scanstring t = Some (str', r)"
        and "t = s1 \<or> t = drop 4 s1 \<or> t = drop 10 s1"
        by (auto split: if_splits option.splits dest!: cons_char_Some)
      then show ?thesis using step [of t str'] s0 by auto
    qed
  qed
qed

lemma match_frac_length: "match_frac r = (f, r') \<Longrightarrow> length r' \<le> length r"
  using length_dropWhile_le [of is_digit]
  by (auto simp: match_frac_def le_Suc_eq split: list.splits if_splits)

lemma match_exp_length: "match_exp r = (f, r') \<Longrightarrow> length r' \<le> length r"
  using length_dropWhile_le [of is_digit]
  by (auto simp: match_exp_def le_Suc_eq Let_def split: list.splits if_splits prod.splits)

lemma number_value_length:
  "number_value lim neg ds r = Parsed v r' \<Longrightarrow> length r' \<le> length r"
  by (auto simp: number_value_def Let_def split: prod.splits if_splits
           dest!: match_frac_length match_exp_length)

lemma number_value_fuel: "number_value lim neg ds r \<noteq> NoFuel" "number_value lim neg ds r \<noteq> TooDeep"
  by (auto simp: number_value_def Let_def split: prod.splits if_splits)

lemma le_dropWhile: "n \<le> length (dropWhile P xs) \<Longrightarrow> n \<le> length xs"
  using length_dropWhile_le [of P xs] by simp

lemma parse_number_shorter: "parse_number lim s = Parsed v r \<Longrightarrow> length r < length s"
  by (auto simp: parse_number_def Let_def less_Suc_eq_le split: list.splits if_splits prod.splits
           dest!: number_value_length dest: le_dropWhile)

lemma parse_number_fuel: "parse_number lim s \<noteq> NoFuel" "parse_number lim s \<noteq> TooDeep"
  by (auto simp: parse_number_def Let_def number_value_fuel split: list.splits if_splits prod.splits)

lemma carry_simps [simp]:
  "carry Failed = Failed" "carry TooLong = TooLong" "carry TooDeep = TooDeep"
  "carry NoFuel = NoFuel" "carry (Parsed v r) = Failed"
  by (simp_all add: carry_def)

lemma carry_not_Parsed [simp]: "carry p \<noteq> Parsed v r"
  by (cases p) simp_all

lemma carry_NoFuel [simp]: "(carry p = NoFuel) = (p = NoFuel)"
  by (cases p) simp_all

lemma carry_TooDeep [simp]: "(carry p = TooDeep) = (p = TooDeep)"
  by (cases p) simp_all

lemma parse_value_shorter_step:
  assumes M: "\<And>d s ps r. parse_members lim n d s = Parsed ps r \<Longrightarrow> length r < length s"
      and I: "\<And>d s vs r. parse_items lim n d s = Parsed vs r \<Longrightarrow> length r < length s"
      and P: "parse_value lim (Suc n) depth s = Parsed v r"
  shows "length r < length s"
proof -
  from P obtain c r0 where s: "s = c # r0"
    by (cases s) auto
  consider (str) "c = dquote"
    | (obj) "c \<noteq> dquote" "c = lbrace"
    | (arr) "c \<noteq> dquote" "c \<noteq> lbrace" "c = lbracket"
    | (other) "c \<noteq> dquote" "c \<noteq> lbrace" "c \<noteq> lbracket"
    by blast
  then show ?thesis
  proof cases
    case str
    with P s show ?thesis
      by (auto split: option.splits dest: scanstring_shorter)
  next
    case obj
    with P s obtain inner where d: "depth = Suc inner"
      by (cases depth) auto
    with P s obj obtain x r2 where sk: "skip_ws r0 = x # r2"
      by (cases "skip_ws r0") auto
    show ?thesis
    proof (cases "x = rbrace")
      case True
      with P s obj d sk have "r = r2" by simp
      with skip_ws_Cons_length [OF sk] s show ?thesis by simp
    next
      case False
      with P s obj d sk obtain ps where "parse_members lim n inner (x # r2) = Parsed ps r"
        by (cases "parse_members lim n inner (x # r2)") auto
      from M [OF this] skip_ws_length [of r0] sk s show ?thesis by simp
    qed
  next
    case arr
    with P s obtain inner where d: "depth = Suc inner"
      by (cases depth) auto
    with P s arr obtain x r2 where sk: "skip_ws r0 = x # r2"
      by (cases "skip_ws r0") auto
    show ?thesis
    proof (cases "x = rbracket")
      case True
      with P s arr d sk have "r = r2" by simp
      with skip_ws_Cons_length [OF sk] s show ?thesis by simp
    next
      case False
      with P s arr d sk obtain vs where "parse_items lim n inner (x # r2) = Parsed vs r"
        by (cases "parse_items lim n inner (x # r2)") auto
      from I [OF this] skip_ws_length [of r0] sk s show ?thesis by simp
    qed
  next
    case other
    from P other s show ?thesis
      by (auto split: if_splits dest: parse_number_shorter)
  qed
qed

lemma parse_items_shorter_step:
  assumes V: "\<And>d s v r. parse_value lim n d s = Parsed v r \<Longrightarrow> length r < length s"
      and I: "\<And>d s vs r. parse_items lim n d s = Parsed vs r \<Longrightarrow> length r < length s"
      and P: "parse_items lim (Suc n) depth s = Parsed vs r"
  shows "length r < length s"
proof -
  from P obtain v r1 where v: "parse_value lim n depth s = Parsed v r1"
    by (cases "parse_value lim n depth s") auto
  from P v obtain x r2 where sk: "skip_ws r1 = x # r2"
    by (cases "skip_ws r1") auto
  have l2: "length r2 < length s"
    using V [OF v] skip_ws_Cons_length [OF sk] by simp
  show ?thesis
  proof (cases "x = rbracket")
    case True
    with P v sk l2 show ?thesis by simp
  next
    case False
    with P v sk obtain vs' where "parse_items lim n depth (skip_ws r2) = Parsed vs' r"
      by (cases "parse_items lim n depth (skip_ws r2)") (auto split: if_splits)
    from I [OF this] skip_ws_length [of r2] l2 show ?thesis by simp
  qed
qed

lemma parse_members_shorter_step:
  assumes V: "\<And>d s v r. parse_value lim n d s = Parsed v r \<Longrightarrow> length r < length s"
      and M: "\<And>d s ps r. parse_members lim n d s = Parsed ps r \<Longrightarrow> length r < length s"
      and P: "parse_members lim (Suc n) depth s = Parsed ps r"
  shows "length r < length s"
proof -
  from P obtain r0 where s: "s = dquote # r0"
    by (cases s) (auto split: if_splits)
  from P s obtain key r1 where k: "scanstring r0 = Some (key, r1)"
    by (cases "scanstring r0") auto
  from P s k obtain r2 where sk1: "skip_ws r1 = colon # r2"
    by (cases "skip_ws r1") (auto split: if_splits)
  from P s k sk1 obtain v r3 where v: "parse_value lim n depth (skip_ws r2) = Parsed v r3"
    by (cases "parse_value lim n depth (skip_ws r2)") auto
  from P s k sk1 v obtain x r4 where sk3: "skip_ws r3 = x # r4"
    by (cases "skip_ws r3") auto
  have "length r3 < length (skip_ws r2)" using V [OF v] .
  with skip_ws_length [of r2] skip_ws_Cons_length [OF sk1] scanstring_shorter [OF k] s
  have "length r3 < length s" by simp
  with skip_ws_Cons_length [OF sk3] have l4: "length r4 < length s" by simp
  show ?thesis
  proof (cases "x = rbrace")
    case True
    with P s k sk1 v sk3 l4 show ?thesis by simp
  next
    case False
    with P s k sk1 v sk3 obtain ps' where "parse_members lim n depth (skip_ws r4) = Parsed ps' r"
      by (cases "parse_members lim n depth (skip_ws r4)") (auto split: if_splits)
    from M [OF this] skip_ws_length [of r4] l4 show ?thesis by simp
  qed
qed

lemma parse_shorter:
  "(\<forall>d s v r. parse_value lim n d s = Parsed v r \<longrightarrow> length r < length s) \<and>
   (\<forall>d s vs r. parse_items lim n d s = Parsed vs r \<longrightarrow> length r < length s) \<and>
   (\<forall>d s ps r. parse_members lim n d s = Parsed ps r \<longrightarrow> length r < length s)"
proof (induction n)
  case 0
  show ?case by simp
next
  case (Suc n)
  then have V: "\<And>d s v r. parse_value lim n d s = Parsed v r \<Longrightarrow> length r < length s"
    and I: "\<And>d s vs r. parse_items lim n d s = Parsed vs r \<Longrightarrow> length r < length s"
    and M: "\<And>d s ps r. parse_members lim n d s = Parsed ps r \<Longrightarrow> length r < length s"
    by blast+
  show ?case
  proof (intro conjI allI impI)
    fix d s v r
    assume P: "parse_value lim (Suc n) d s = Parsed v r"
    show "length r < length s"
      by (rule parse_value_shorter_step [where lim = lim and n = n, OF _ _ P]) (erule M I)+
  next
    fix d s vs r
    assume P: "parse_items lim (Suc n) d s = Parsed vs r"
    show "length r < length s"
      by (rule parse_items_shorter_step [where lim = lim and n = n, OF _ _ P]) (erule V I)+
  next
    fix d s ps r
    assume P: "parse_members lim (Suc n) d s = Parsed ps r"
    show "length r < length s"
      by (rule parse_members_shorter_step [where lim = lim and n = n, OF _ _ P]) (erule V M)+
  qed
qed

lemma parse_value_shorter: "parse_value lim n d s = Parsed v r \<Longrightarrow> length r < length s"
  using parse_shorter by blast

lemma parse_value_fuel_step:
  assumes M: "\<And>d s. 2 * length s + 1 < n \<Longrightarrow> parse_members lim n d s \<noteq> NoFuel"
      and I: "\<And>d s. 2 * length s + 1 < n \<Longrightarrow> parse_items lim n d s \<noteq> NoFuel"
      and L: "2 * length s < Suc n"
  shows "parse_value lim (Suc n) depth s \<noteq> NoFuel"
proof (cases s)
  case Nil
  then show ?thesis by simp
next
  case (Cons c r0)
  have sub: "\<And>x r2. skip_ws r0 = x # r2 \<Longrightarrow> 2 * length (x # r2) + 1 < n"
  proof -
    fix x r2 assume "skip_ws r0 = x # r2"
    with skip_ws_length [of r0] have "length (x # r2) \<le> length r0" by simp
    with L Cons show "2 * length (x # r2) + 1 < n" by simp
  qed
  consider (str) "c = dquote"
    | (obj) "c \<noteq> dquote" "c = lbrace"
    | (arr) "c \<noteq> dquote" "c \<noteq> lbrace" "c = lbracket"
    | (other) "c \<noteq> dquote" "c \<noteq> lbrace" "c \<noteq> lbracket"
    by blast
  then show ?thesis
  proof cases
    case str
    with Cons show ?thesis by (simp split: option.splits)
  next
    case obj
    show ?thesis
    proof (cases depth)
      case 0
      with Cons obj show ?thesis by simp
    next
      case (Suc inner)
      show ?thesis
      proof (cases "skip_ws r0")
        case Nil
        with Cons obj Suc show ?thesis by simp
      next
        case (Cons x r2)
        from M [OF sub [OF Cons], of inner] Cons obj Suc \<open>s = c # r0\<close> show ?thesis
          by (cases "parse_members lim n inner (x # r2)") simp_all
      qed
    qed
  next
    case arr
    show ?thesis
    proof (cases depth)
      case 0
      with Cons arr show ?thesis by simp
    next
      case (Suc inner)
      show ?thesis
      proof (cases "skip_ws r0")
        case Nil
        with Cons arr Suc show ?thesis by simp
      next
        case (Cons x r2)
        from I [OF sub [OF Cons], of inner] Cons arr Suc \<open>s = c # r0\<close> show ?thesis
          by (cases "parse_items lim n inner (x # r2)") simp_all
      qed
    qed
  next
    case other
    with Cons show ?thesis by (simp add: parse_number_fuel)
  qed
qed

lemma parse_items_fuel_step:
  assumes V: "\<And>d s. 2 * length s < n \<Longrightarrow> parse_value lim n d s \<noteq> NoFuel"
      and I: "\<And>d s. 2 * length s + 1 < n \<Longrightarrow> parse_items lim n d s \<noteq> NoFuel"
      and L: "2 * length s + 1 < Suc n"
  shows "parse_items lim (Suc n) depth s \<noteq> NoFuel"
proof (cases "parse_value lim n depth s")
  case (Parsed v r1)
  show ?thesis
  proof (cases "skip_ws r1")
    case Nil
    with Parsed show ?thesis by simp
  next
    case (Cons x r2)
    have "length r2 < length s"
      using parse_value_shorter [OF Parsed] skip_ws_Cons_length [OF Cons] by simp
    with skip_ws_length [of r2] L have "2 * length (skip_ws r2) + 1 < n" by simp
    from I [OF this, of depth] Parsed Cons show ?thesis
      by (cases "parse_items lim n depth (skip_ws r2)") simp_all
  qed
next
  case NoFuel
  with V [of s depth] L show ?thesis by simp
qed simp_all

lemma parse_members_fuel_step:
  assumes V: "\<And>d s. 2 * length s < n \<Longrightarrow> parse_value lim n d s \<noteq> NoFuel"
      and M: "\<And>d s. 2 * length s + 1 < n \<Longrightarrow> parse_members lim n d s \<noteq> NoFuel"
      and L: "2 * length s + 1 < Suc n"
  shows "parse_members lim (Suc n) depth s \<noteq> NoFuel"
proof (cases s)
  case Nil
  then show ?thesis by simp
next
  case (Cons q r0)
  note s = Cons
  show ?thesis
  proof (cases "q = dquote")
    case False
    with s show ?thesis by simp
  next
    case True
    note q = True
    show ?thesis
    proof (cases "scanstring r0")
      case None
      with s q show ?thesis by simp
    next
      case (Some kr)
      then obtain key r1 where k: "scanstring r0 = Some (key, r1)"
        by (cases kr) auto
      show ?thesis
      proof (cases "skip_ws r1")
        case Nil
        with s q k show ?thesis by simp
      next
        case (Cons c r2)
        note sk1 = Cons
        have l2: "length r2 < length s"
          using skip_ws_Cons_length [OF sk1] scanstring_shorter [OF k] s by simp
        show ?thesis
        proof (cases "c = colon")
          case False
          with s q k sk1 show ?thesis by simp
        next
          case True
          note c = True
          show ?thesis
          proof (cases "parse_value lim n depth (skip_ws r2)")
            case NoFuel
            have "2 * length (skip_ws r2) < n"
              using skip_ws_length [of r2] l2 L by simp
            from V [OF this, of depth] NoFuel show ?thesis by simp
          next
            case (Parsed v r3)
            show ?thesis
            proof (cases "skip_ws r3")
              case Nil
              with s q k sk1 c Parsed show ?thesis by simp
            next
              case (Cons x r4)
              have "length r4 < length s"
                using parse_value_shorter [OF Parsed] skip_ws_Cons_length [OF Cons]
                  skip_ws_length [of r2] l2 by simp
              with skip_ws_length [of r4] L have "2 * length (skip_ws r4) + 1 < n" by simp
              from M [OF this, of depth] s q k sk1 c Parsed Cons show ?thesis
                by (cases "parse_members lim n depth (skip_ws r4)") simp_all
            qed
          qed (use s q k sk1 c in simp_all)
        qed
      qed
    qed
  qed
qed

lemma parse_fuel:
  "(\<forall>d s. 2 * length s < n \<longrightarrow> parse_value lim n d s \<noteq> NoFuel) \<and>
   (\<forall>d s. 2 * length s + 1 < n \<longrightarrow> parse_items lim n d s \<noteq> NoFuel) \<and>
   (\<forall>d s. 2 * length s + 1 < n \<longrightarrow> parse_members lim n d s \<noteq> NoFuel)"
proof (induction n)
  case 0
  show ?case by simp
next
  case (Suc n)
  then have V: "\<And>d s. 2 * length s < n \<Longrightarrow> parse_value lim n d s \<noteq> NoFuel"
    and I: "\<And>d s. 2 * length s + 1 < n \<Longrightarrow> parse_items lim n d s \<noteq> NoFuel"
    and M: "\<And>d s. 2 * length s + 1 < n \<Longrightarrow> parse_members lim n d s \<noteq> NoFuel"
    by blast+
  show ?case
  proof (intro conjI allI impI)
    fix d and s :: pystr
    assume L: "2 * length s < Suc n"
    show "parse_value lim (Suc n) d s \<noteq> NoFuel"
      by (rule parse_value_fuel_step [where lim = lim and n = n, OF _ _ L]) (erule M I)+
  next
    fix d and s :: pystr
    assume L: "2 * length s + 1 < Suc n"
    show "parse_items lim (Suc n) d s \<noteq> NoFuel"
      by (rule parse_items_fuel_step [where lim = lim and n = n, OF _ _ L]) (erule V I)+
  next
    fix d and s :: pystr
    assume L: "2 * length s + 1 < Suc n"
    show "parse_members lim (Suc n) d s \<noteq> NoFuel"
      by (rule parse_members_fuel_step [where lim = lim and n = n, OF _ _ L]) (erule V M)+
  qed
qed

lemma parse_value_fuel: "2 * length s < n \<Longrightarrow> parse_value lim n d s \<noteq> NoFuel"
  using parse_fuel by blast

lemma json_loads_fuel:
  "parse_value lim (2 * length s + 2) d (skip_ws s) \<noteq> NoFuel"
proof -
  have "2 * length (skip_ws s) < 2 * length s + 2"
    using skip_ws_length [of s] by simp
  then show ?thesis by (rule parse_value_fuel)
qed

text \<open>The only exception of \<open>json_loads\<close> that the extractor does not catch.\<close>

lemma json_loads_error:
  "json_loads lim s = Inl e \<Longrightarrow> e = JSONDecodeError \<or> e = ValueError \<or> e = RecursionError"
  by (auto simp: json_loads_def split: if_splits parse.splits)

lemma json_loads_RecursionError:
  "(json_loads lim s = Inl RecursionError)
     = (take 1 s \<noteq> [65279]
        \<and> parse_value lim (2 * length s + 2) (recursion_depth lim) (skip_ws s) = TooDeep)"
  using json_loads_fuel [of lim s "recursion_depth lim"]
  by (auto simp: json_loads_def split: if_splits parse.splits)

text \<open>
  The limits only ever refuse: a text that decodes under some limits decodes to the same
  value under wider ones.
\<close>

lemma number_value_mono:
  assumes "\<And>k. digits_allowed lim k \<Longrightarrow> digits_allowed lim' k"
      and "number_value lim neg ds r = Parsed v r'"
  shows "number_value lim' neg ds r = Parsed v r'"
  using assms
  by (auto simp: number_value_def Let_def split: prod.splits if_splits)

lemma parse_number_mono:
  assumes "\<And>k. digits_allowed lim k \<Longrightarrow> digits_allowed lim' k"
      and "parse_number lim s = Parsed v r"
  shows "parse_number lim' s = Parsed v r"
  using assms(2) number_value_mono [of lim lim', OF assms(1)]
  by (auto simp: parse_number_def Let_def split: list.splits if_splits prod.splits)

text \<open>Arrays opened one inside the other, more of them than the depth that is left.\<close>

lemma deep_arrays:
  "d < k \<Longrightarrow> 2 * d < n \<Longrightarrow> parse_value lim n d (replicate k lbracket @ t) = TooDeep"
proof (induction d arbitrary: k n)
  case 0
  then obtain m k' where "n = Suc m" "k = Suc k'"
    by (cases n; cases k) auto
  then show ?case by simp
next
  case (Suc inner)
  from Suc.prems obtain m where n: "n = Suc (Suc m)" and m: "2 * inner < m"
    by (cases n; cases "n - 1") auto
  from Suc.prems obtain k' where k: "k = Suc (Suc k')" and k': "inner < Suc k'"
    by (cases k; cases "k - 1") auto
  have "parse_value lim m inner (replicate (Suc k') lbracket @ t) = TooDeep"
    using k' m by (rule Suc.IH)
  then show ?case
    by (simp add: n k skip_ws_def is_ws_def)
qed


lemma parse_value_mono_step:
  assumes A: "\<And>k. digits_allowed lim k \<Longrightarrow> digits_allowed lim' k"
      and M: "\<And>d d' s ps r. parse_members lim n d s = Parsed ps r \<Longrightarrow> d \<le> d'
                \<Longrightarrow> parse_members lim' n d' s = Parsed ps r"
      and I: "\<And>d d' s vs r. parse_items lim n d s = Parsed vs r \<Longrightarrow> d \<le> d'
                \<Longrightarrow> parse_items lim' n d' s = Parsed vs r"
      and P: "parse_value lim (Suc n) depth s = Parsed v r"
      and le: "depth \<le> depth'"
  shows "parse_value lim' (Suc n) depth' s = Parsed v r"
proof -
  from P obtain c r0 where s: "s = c # r0"
    by (cases s) auto
  consider (str) "c = dquote"
    | (obj) "c \<noteq> dquote" "c = lbrace"
    | (arr) "c \<noteq> dquote" "c \<noteq> lbrace" "c = lbracket"
    | (other) "c \<noteq> dquote" "c \<noteq> lbrace" "c \<noteq> lbracket"
    by blast
  then show ?thesis
  proof cases
    case str
    with P s show ?thesis by simp
  next
    case obj
    with P s obtain inner where d: "depth = Suc inner"
      by (cases depth) auto
    with le obtain inner' where d': "depth' = Suc inner'" and il: "inner \<le> inner'"
      by (cases depth') auto
    from P s obj d obtain x r2 where sk: "skip_ws r0 = x # r2"
      by (cases "skip_ws r0") auto
    show ?thesis
    proof (cases "x = rbrace")
      case True
      with P s obj d d' sk show ?thesis by simp
    next
      case False
      with P s obj d sk obtain ps rest where pm: "parse_members lim n inner (x # r2) = Parsed ps rest"
        by (cases "parse_members lim n inner (x # r2)") auto
      from M [OF pm il] pm P s obj d d' sk False show ?thesis by simp
    qed
  next
    case arr
    with P s obtain inner where d: "depth = Suc inner"
      by (cases depth) auto
    with le obtain inner' where d': "depth' = Suc inner'" and il: "inner \<le> inner'"
      by (cases depth') auto
    from P s arr d obtain x r2 where sk: "skip_ws r0 = x # r2"
      by (cases "skip_ws r0") auto
    show ?thesis
    proof (cases "x = rbracket")
      case True
      with P s arr d d' sk show ?thesis by simp
    next
      case False
      with P s arr d sk obtain vs rest where pm: "parse_items lim n inner (x # r2) = Parsed vs rest"
        by (cases "parse_items lim n inner (x # r2)") auto
      from I [OF pm il] pm P s arr d d' sk False show ?thesis by simp
    qed
  next
    case other
    have pn: "parse_number lim' t = Parsed v r" if "parse_number lim t = Parsed v r" for t
      using A that by (rule parse_number_mono)
    from P other s show ?thesis
      by (auto split: if_splits intro: pn)
  qed
qed

lemma parse_items_mono_step:
  assumes V: "\<And>d d' s v r. parse_value lim n d s = Parsed v r \<Longrightarrow> d \<le> d'
                \<Longrightarrow> parse_value lim' n d' s = Parsed v r"
      and I: "\<And>d d' s vs r. parse_items lim n d s = Parsed vs r \<Longrightarrow> d \<le> d'
                \<Longrightarrow> parse_items lim' n d' s = Parsed vs r"
      and P: "parse_items lim (Suc n) depth s = Parsed vs r"
      and le: "depth \<le> depth'"
  shows "parse_items lim' (Suc n) depth' s = Parsed vs r"
proof -
  from P obtain v r1 where v: "parse_value lim n depth s = Parsed v r1"
    by (cases "parse_value lim n depth s") auto
  from P v obtain x r2 where sk: "skip_ws r1 = x # r2"
    by (cases "skip_ws r1") auto
  note v' = V [OF v le]
  show ?thesis
  proof (cases "x = rbracket")
    case True
    with P v v' sk show ?thesis by simp
  next
    case False
    with P v sk obtain vs' rest where pi: "parse_items lim n depth (skip_ws r2) = Parsed vs' rest"
      by (cases "parse_items lim n depth (skip_ws r2)") (auto split: if_splits)
    from I [OF pi le] pi P v v' sk False show ?thesis by (simp split: if_splits)
  qed
qed

lemma parse_members_mono_step:
  assumes V: "\<And>d d' s v r. parse_value lim n d s = Parsed v r \<Longrightarrow> d \<le> d'
                \<Longrightarrow> parse_value lim' n d' s = Parsed v r"
      and M: "\<And>d d' s ps r. parse_members lim n d s = Parsed ps r \<Longrightarrow> d \<le> d'
                \<Longrightarrow> parse_members lim' n d' s = Parsed ps r"
      and P: "parse_members lim (Suc n) depth s = Parsed ps r"
      and le: "depth \<le> depth'"
  shows "parse_members lim' (Suc n) depth' s = Parsed ps r"
proof -
  from P obtain r0 where s: "s = dquote # r0"
    by (cases s) (auto split: if_splits)
  from P s obtain key r1 where k: "scanstring r0 = Some (key, r1)"
    by (cases "scanstring r0") auto
  from P s k obtain r2 where sk1: "skip_ws r1 = colon # r2"
    by (cases "skip_ws r1") (auto split: if_splits)
  from P s k sk1 obtain v r3 where v: "parse_value lim n depth (skip_ws r2) = Parsed v r3"
    by (cases "parse_value lim n depth (skip_ws r2)") auto
  from P s k sk1 v obtain x r4 where sk3: "skip_ws r3 = x # r4"
    by (cases "skip_ws r3") auto
  note v' = V [OF v le]
  show ?thesis
  proof (cases "x = rbrace")
    case True
    with P s k sk1 v v' sk3 show ?thesis by simp
  next
    case False
    with P s k sk1 v sk3 obtain ps' rest
      where pm: "parse_members lim n depth (skip_ws r4) = Parsed ps' rest"
      by (cases "parse_members lim n depth (skip_ws r4)") (auto split: if_splits)
    from M [OF pm le] pm P s k sk1 v v' sk3 False show ?thesis by (simp split: if_splits)
  qed
qed

lemma parse_mono:
  assumes A: "\<And>k. digits_allowed lim k \<Longrightarrow> digits_allowed lim' k"
  shows "(\<forall>d d' s v r. parse_value lim n d s = Parsed v r \<longrightarrow> d \<le> d'
            \<longrightarrow> parse_value lim' n d' s = Parsed v r) \<and>
         (\<forall>d d' s vs r. parse_items lim n d s = Parsed vs r \<longrightarrow> d \<le> d'
            \<longrightarrow> parse_items lim' n d' s = Parsed vs r) \<and>
         (\<forall>d d' s ps r. parse_members lim n d s = Parsed ps r \<longrightarrow> d \<le> d'
            \<longrightarrow> parse_members lim' n d' s = Parsed ps r)"
proof (induction n)
  case 0
  show ?case by simp
next
  case (Suc n)
  then have V: "\<And>d d' s v r. parse_value lim n d s = Parsed v r \<Longrightarrow> d \<le> d'
                \<Longrightarrow> parse_value lim' n d' s = Parsed v r"
    and I: "\<And>d d' s vs r. parse_items lim n d s = Parsed vs r \<Longrightarrow> d \<le> d'
                \<Longrightarrow> parse_items lim' n d' s = Parsed vs r"
    and M: "\<And>d d' s ps r. parse_members lim n d s = Parsed ps r \<Longrightarrow> d \<le> d'
                \<Longrightarrow> parse_members lim' n d' s = Parsed ps r"
    by blast+
  show ?case
  proof (intro conjI allI impI)
    fix d d' s v r
    assume P: "parse_value lim (Suc n) d s = Parsed v r" and le: "d \<le> d'"
    show "parse_value lim' (Suc n) d' s = Parsed v r"
      by (rule parse_value_mono_step [where lim = lim and n = n, OF A _ _ P le])
         (assumption | erule (1) M I)+
  next
    fix d d' s vs r
    assume P: "parse_items lim (Suc n) d s = Parsed vs r" and le: "d \<le> d'"
    show "parse_items lim' (Suc n) d' s = Parsed vs r"
      by (rule parse_items_mono_step [where lim = lim and n = n, OF _ _ P le]) (erule (1) V I)+
  next
    fix d d' s ps r
    assume P: "parse_members lim (Suc n) d s = Parsed ps r" and le: "d \<le> d'"
    show "parse_members lim' (Suc n) d' s = Parsed ps r"
      by (rule parse_members_mono_step [where lim = lim and n = n, OF _ _ P le]) (erule (1) V M)+
  qed
qed

lemma json_loads_mono:
  assumes "\<And>k. digits_allowed lim k \<Longrightarrow> digits_allowed lim' k"
      and "recursion_depth lim \<le> recursion_depth lim'"
      and "json_loads lim s = Inr v"
  shows "json_loads lim' s = Inr v"
proof -
  from assms(3) obtain r where
    b: "take 1 s \<noteq> [65279]"
    and p: "parse_value lim (2 * length s + 2) (recursion_depth lim) (skip_ws s) = Parsed v r"
    and r: "skip_ws r = []"
    by (auto simp: json_loads_def split: if_splits parse.splits)
  from parse_mono [of lim lim' "2 * length s + 2", OF assms(1)] p assms(2)
  have "parse_value lim' (2 * length s + 2) (recursion_depth lim') (skip_ws s) = Parsed v r"
    by blast
  with b r show ?thesis by (simp add: json_loads_def)
qed

section \<open>Facts about the extractor\<close>

lemma candidate_call_error:
  "candidate_call lim c = Inl e \<Longrightarrow> json_loads lim (replace_quotes c) = Inl e"
  by (auto simp: candidate_call_def Let_def split: sum.splits pyval.splits option.splits)

lemma candidate_call_uncaught:
  assumes "candidate_call lim c = Inl e" and "\<not> caught e"
  shows "e = RecursionError"
  using json_loads_error [OF candidate_call_error [OF assms(1)]] assms(2)
  by (auto simp: caught_def)

lemma collect_calls_eq:
  "collect_calls lim cs acc = Inr calls \<Longrightarrow> calls = acc @ List.map_filter (accepted lim) cs"
proof (induction cs arbitrary: acc)
  case Nil
  then show ?case by (simp add: List.map_filter_simps)
next
  case (Cons c cs)
  show ?case
  proof (cases "candidate_call lim c")
    case (Inl e)
    with Cons.prems have "collect_calls lim cs acc = Inr calls"
      by (simp split: if_splits)
    from Cons.IH [OF this] Inl show ?thesis
      by (simp add: accepted_def List.map_filter_simps)
  next
    case (Inr oc)
    show ?thesis
    proof (cases oc)
      case None
      with Inr Cons.prems have "collect_calls lim cs acc = Inr calls" by simp
      from Cons.IH [OF this] Inr None show ?thesis
        by (simp add: accepted_def List.map_filter_simps)
    next
      case (Some tc)
      with Inr Cons.prems have "collect_calls lim cs (acc @ [tc]) = Inr calls" by simp
      from Cons.IH [OF this] Inr Some show ?thesis
        by (simp add: accepted_def List.map_filter_simps)
    qed
  qed
qed

lemma collect_calls_raise:
  "collect_calls lim cs acc = Inl e \<Longrightarrow>
     e = RecursionError \<and> (\<exists>c \<in> set cs. json_loads lim (replace_quotes c) = Inl RecursionError)"
proof (induction cs arbitrary: acc)
  case Nil
  then show ?case by simp
next
  case (Cons c cs)
  show ?case
  proof (cases "candidate_call lim c")
    case (Inl x)
    show ?thesis
    proof (cases "caught x")
      case True
      with Inl Cons.prems have "collect_calls lim cs acc = Inl e" by simp
      from Cons.IH [OF this] show ?thesis by auto
    next
      case False
      with Inl Cons.prems have "e = x" by simp
      with candidate_call_uncaught [OF Inl False] candidate_call_error [OF Inl]
      show ?thesis by simp
    qed
  next
    case (Inr oc)
    show ?thesis
    proof (cases oc)
      case None
      with Inr Cons.prems have "collect_calls lim cs acc = Inl e" by simp
      from Cons.IH [OF this] show ?thesis by auto
    next
      case (Some tc)
      with Inr Cons.prems have "collect_calls lim cs (acc @ [tc]) = Inl e" by simp
      from Cons.IH [OF this] show ?thesis by auto
    qed
  qed
qed

lemma collect_calls_return:
  assumes "\<forall>c \<in> set cs. json_loads lim (replace_quotes c) \<noteq> Inl RecursionError"
  shows "collect_calls lim cs acc = Inr (acc @ List.map_filter (accepted lim) cs)"
proof (cases "collect_calls lim cs acc")
  case (Inl e)
  from collect_calls_raise [OF this] assms show ?thesis by blast
next
  case (Inr calls)
  with collect_calls_eq [OF this] show ?thesis by simp
qed

lemma collect_calls_skip:
  assumes "candidate_call lim c = Inl e \<and> caught e \<or> candidate_call lim c = Inr None"
  shows "collect_calls lim (c # cs) acc = collect_calls lim cs acc"
  using assms by auto

lemma extract_tool_calls_eq:
  "extract_tool_calls lim response = Inr calls \<Longrightarrow>
     calls = List.map_filter (accepted lim) (finditer response)"
  using collect_calls_eq [of lim "finditer response" "[]" calls]
  by (simp add: extract_tool_calls_def)

lemma extract_tool_calls_raise:
  "extract_tool_calls lim response = Inl e \<Longrightarrow>
     e = RecursionError
     \<and> (\<exists>c \<in> set (finditer response). json_loads lim (replace_quotes c) = Inl RecursionError)"
  unfolding extract_tool_calls_def by (rule collect_calls_raise)

lemma extract_tool_calls_return:
  "\<forall>c \<in> set (finditer response). json_loads lim (replace_quotes c) \<noteq> Inl RecursionError \<Longrightarrow>
     extract_tool_calls lim response = Inr (List.map_filter (accepted lim) (finditer response))"
  using collect_calls_return [of "finditer response" lim "[]"]
  by (simp add: extract_tool_calls_def)

lemma accepted_iff:
  "(accepted lim c = Some tc) =
     (\<exists>d v. json_loads lim (replace_quotes c) = Inr (PDict d) \<and> map_of d (asc ''tool'') = Some v
        \<and> tc = \<lparr>tc_tool = v,
                tc_args = (case map_of d (asc ''args'') of Some (PDict a) \<Rightarrow> a | _ \<Rightarrow> [])\<rparr>)"
  by (auto simp: accepted_def candidate_call_def Let_def
           split: sum.splits pyval.splits option.splits)

lemma accepted_mono:
  assumes "\<And>k. digits_allowed lim k \<Longrightarrow> digits_allowed lim' k"
      and "recursion_depth lim \<le> recursion_depth lim'"
      and "accepted lim c = Some tc"
  shows "accepted lim' c = Some tc"
  using assms(3) json_loads_mono [OF assms(1,2)]
  unfolding accepted_iff by blast

text \<open>The candidates of a text that is itself a match of the pattern.\<close>

lemma finditer_in_pattern:
  assumes "in_pattern m"
  shows "finditer m = [m]"
proof -
  from assms obtain t where m: "m = lbrace # t"
    by (auto simp: in_pattern_def)
  from match_here_complete [OF assms, of "[]"] have "match_here m = Some (m, [])"
    by simp
  moreover have "finditer [] = []"
    by (subst finditer.simps) simp
  ultimately show ?thesis
    by (subst finditer.simps) (simp add: m)
qed

lemma in_pattern_deep_candidate: "in_pattern (deep_candidate k)"
proof -
  define a where \<open>a = asc ''"tool":'' @ replicate k lbracket @ replicate k rbracket\<close>
  have "list_all nonbrace a"
    by (auto simp: a_def nonbrace_def list_all_iff)
  moreover have "list_all is_group []"
    by simp
  moreover have "deep_candidate k = lbrace # a @ concat [] @ [rbrace]"
    by (simp add: deep_candidate_def a_def)
  ultimately show ?thesis
    unfolding in_pattern_def by blast
qed

lemma json_loads_deep_candidate:
  assumes "recursion_depth lim \<le> k"
  shows "json_loads lim (deep_candidate k) = Inl RecursionError"
proof -
  define A where "A = replicate k lbracket @ replicate k rbracket @ [rbrace]"
  have m: "deep_candidate k = lbrace # dquote # asc ''tool'' @ dquote # colon # A"
    by (simp add: deep_candidate_def A_def)
  have "length (deep_candidate k) = 2 * k + 9"
    by (simp add: deep_candidate_def)
  then obtain n where F: "2 * length (deep_candidate k) + 2 = Suc (Suc n)" and n: "2 * k < n"
    by (intro that [of "4 * k + 18"]) simp_all
  have "parse_value lim (Suc (Suc n)) (recursion_depth lim) (deep_candidate k) = TooDeep"
  proof (cases "recursion_depth lim")
    case 0
    then show ?thesis by (simp add: m)
  next
    case (Suc inner)
    with assms have ik: "inner < k" by simp
    then obtain k' where k: "k = Suc k'" by (cases k) auto
    have sk: "skip_ws A = A"
      by (simp add: A_def k skip_ws_def is_ws_def)
    have "parse_value lim n inner A = TooDeep"
      unfolding A_def using ik n by (intro deep_arrays) simp_all
    then have "parse_members lim (Suc n) inner (dquote # asc ''tool'' @ dquote # colon # A) = TooDeep"
      by (simp add: sk cons_char_def is_ws_def skip_ws_def [of "colon # A"])
    then show ?thesis
      by (simp add: m Suc skip_ws_def is_ws_def)
  qed
  then show ?thesis
    by (simp add: json_loads_def F [symmetric] m skip_ws_def is_ws_def)
qed

lemma replace_quotes_deep_candidate: "replace_quotes (deep_candidate k) = deep_candidate k"
  by (simp add: replace_quotes_def deep_candidate_def)

lemma extract_deep_candidate:
  assumes "recursion_depth lim \<le> k"
  shows "extract_tool_calls lim (deep_candidate k) = Inl RecursionError"
  using json_loads_deep_candidate [OF assms]
  by (simp add: extract_tool_calls_def finditer_in_pattern [OF in_pattern_deep_candidate]
        candidate_call_def replace_quotes_deep_candidate caught_def)

section \<open>Facts about the loop\<close>

lemma execute_tools_events:
  "execute_tools env w calls = (executed, w', evs) \<Longrightarrow>
     \<exists>rs. length rs \<le> length calls \<and> evs = tool_events calls rs
          \<and> (case executed of
                Inl x \<Rightarrow> x = UnicodeEncodeError
              | Inr results \<Rightarrow> length rs = length calls \<and> results = tool_results_of env calls rs)"
proof (induction calls arbitrary: w executed w' evs)
  case Nil
  then show ?case by (auto simp: tool_events_def tool_results_of_def)
next
  case (Cons tc tcs)
  show ?case
  proof (cases "encodable (announcement env tc)")
    case False
    with Cons.prems have "executed = Inl UnicodeEncodeError" "evs = tool_events (tc # tcs) []"
      by (simp_all add: tool_events_def)
    then show ?thesis by (intro exI [of _ "[]"]) simp
  next
    case True
    note announced = True
    obtain r w1 where c: "call_tool env w (tc_tool tc) (tc_args tc) = (r, w1)"
      by (cases "call_tool env w (tc_tool tc) (tc_args tc)")
    show ?thesis
    proof (cases "handled r \<and> \<not> encodable (failure_line (result_text env r))")
      case True
      with Cons.prems announced c have "executed = Inl UnicodeEncodeError"
        "evs = tool_events (tc # tcs) [r]"
        by (simp_all add: tool_events_def)
      then show ?thesis by (intro exI [of _ "[r]"]) simp
    next
      case False
      obtain rest w2 evs1 where e: "execute_tools env w1 tcs = (rest, w2, evs1)"
        by (cases "execute_tools env w1 tcs") auto
      from Cons.IH [OF e] obtain rs where
        rs: "length rs \<le> length tcs" "evs1 = tool_events tcs rs"
        and rest: "case rest of
                Inl x \<Rightarrow> x = UnicodeEncodeError
              | Inr results \<Rightarrow> length rs = length tcs \<and> results = tool_results_of env tcs rs"
        by blast
      from Cons.prems announced c False e have
        evs: "evs = ToolExec (tc_tool tc) (tc_args tc) r # evs1"
        and ex: "executed = (case rest of
                     Inl x \<Rightarrow> Inl x
                   | Inr results \<Rightarrow>
                       Inr (\<lparr>tr_tool = tc_tool tc, tr_result = result_text env r\<rparr> # results))"
        by auto
      have "length (r # rs) \<le> length (tc # tcs) \<and> evs = tool_events (tc # tcs) (r # rs)
          \<and> (case executed of
                Inl x \<Rightarrow> x = UnicodeEncodeError
              | Inr results \<Rightarrow> length (r # rs) = length (tc # tcs)
                    \<and> results = tool_results_of env (tc # tcs) (r # rs))"
        using rs rest evs ex
        by (cases rest) (simp_all add: tool_events_def tool_results_of_def)
      then show ?thesis by blast
    qed
  qed
qed

text \<open>One iteration, unfolded: the five ways it can go.\<close>

lemma iterations_step:
  assumes "iterations env self sp B (i # rest) um h w = (res, w', tr)"
  obtains
    (failed) e w1 where
      "call_ollama env self w sp (fst (build_message i um h)) = (Inl e, w1)"
      "res = Return (PStr (ollama_error_prefix @ e))" "w' = w1"
      "tr = [ModelCall (fst (build_message i um h)) (Inl e)]"
  | (stop) v w1 where
      "call_ollama env self w sp (fst (build_message i um h)) = (Inr v, w1)"
      "\<not> wants_tools (interp env) (Inr v)" "w' = w1"
      "tr = [ModelCall (fst (build_message i um h)) (Inr v)]"
      "res = (case v of
                PStr t \<Rightarrow> (case extract_tool_calls (interp env) t of
                             Inl x \<Rightarrow> Raise x | Inr _ \<Rightarrow> Return v)
              | _ \<Rightarrow> Raise TypeError)"
  | (abort) reply w1 calls rs where
      "call_ollama env self w sp (fst (build_message i um h)) = (Inr (PStr reply), w1)"
      "extract_tool_calls (interp env) reply = Inr calls" "calls \<noteq> []"
      "execute_tools env w1 calls = (Inl UnicodeEncodeError, w', tool_events calls rs)"
      "length rs \<le> length calls"
      "res = Raise UnicodeEncodeError"
      "tr = ModelCall (fst (build_message i um h)) (Inr (PStr reply)) # tool_events calls rs"
  | (final) reply w1 calls rs w2 fr where
      "call_ollama env self w sp (fst (build_message i um h)) = (Inr (PStr reply), w1)"
      "extract_tool_calls (interp env) reply = Inr calls" "calls \<noteq> []"
      "execute_tools env w1 calls = (Inr (tool_results_of env calls rs), w2, tool_events calls rs)"
      "length rs = length calls"
      "int i = B - 1"
      "call_ollama env self w2 sp (render_results env (tool_results_of env calls rs)) = (fr, w')"
      "res = final_outcome fr"
      "tr = ModelCall (fst (build_message i um h)) (Inr (PStr reply)) # tool_events calls rs
              @ [FinalCall (render_results env (tool_results_of env calls rs)) fr]"
  | (continue) reply w1 calls rs w2 later where
      "call_ollama env self w sp (fst (build_message i um h)) = (Inr (PStr reply), w1)"
      "extract_tool_calls (interp env) reply = Inr calls" "calls \<noteq> []"
      "execute_tools env w1 calls = (Inr (tool_results_of env calls rs), w2, tool_events calls rs)"
      "length rs = length calls"
      "int i \<noteq> B - 1"
      "iterations env self sp B rest (render_results env (tool_results_of env calls rs))
         (snd (build_message i um h) @
            [\<lparr>role = asc ''assistant'', content = reply\<rparr>,
             \<lparr>role = asc ''user'', content = render_results env (tool_results_of env calls rs)\<rparr>])
         w2 = (res, w', later)"
      "tr = ModelCall (fst (build_message i um h)) (Inr (PStr reply)) # tool_events calls rs @ later"
proof -
  obtain fm h1 where bm: "build_message i um h = (fm, h1)"
    by (cases "build_message i um h")
  obtain r w1 where co: "call_ollama env self w sp fm = (r, w1)"
    by (cases "call_ollama env self w sp fm")
  show thesis
  proof (cases r)
    case (Inl e)
    with assms bm co show thesis by (intro failed [of e w1]) auto
  next
    case (Inr v)
    note r = Inr
    show thesis
    proof (cases "wants_tools (interp env) (Inr v)")
      case False
      with assms bm co r show thesis
        by (intro stop [of v w1])
           (auto simp: wants_tools_def split: pyval.splits sum.splits list.splits)
    next
      case True
      then obtain reply calls where v: "v = PStr reply"
        and ex: "extract_tool_calls (interp env) reply = Inr calls" and ne: "calls \<noteq> []"
        by (auto simp: wants_tools_def split: pyval.splits sum.splits list.splits)
      obtain executed w2 evs where et: "execute_tools env w1 calls = (executed, w2, evs)"
        by (cases "execute_tools env w1 calls") auto
      from execute_tools_events [OF et] obtain rs where
        rs: "length rs \<le> length calls" "evs = tool_events calls rs"
        and ed: "case executed of
                   Inl x \<Rightarrow> x = UnicodeEncodeError
                 | Inr results \<Rightarrow> length rs = length calls \<and> results = tool_results_of env calls rs"
        by blast
      show thesis
      proof (cases executed)
        case (Inl x)
        with ed have "executed = Inl UnicodeEncodeError" by simp
        with assms bm co r v ex ne et rs show thesis
          by (intro abort [of reply w1 calls rs]) auto
      next
        case (Inr results)
        with ed have len: "length rs = length calls"
          and results: "results = tool_results_of env calls rs"
          by simp_all
        note ok = Inr
        show thesis
        proof (cases "int i = B - 1")
          case True
          obtain fr w3 where f: "call_ollama env self w2 sp (render_results env results) = (fr, w3)"
            by (cases "call_ollama env self w2 sp (render_results env results)")
          from assms bm co r v ex ne et rs ok len results True f show thesis
            by (intro final [of reply w1 calls rs w2 fr]) auto
        next
          case False
          obtain res1 w3 later where
            it: "iterations env self sp B rest (render_results env results)
                   (h1 @ [\<lparr>role = asc ''assistant'', content = reply\<rparr>,
                          \<lparr>role = asc ''user'', content = render_results env results\<rparr>]) w2
                 = (res1, w3, later)"
            by (cases "iterations env self sp B rest (render_results env results)
                   (h1 @ [\<lparr>role = asc ''assistant'', content = reply\<rparr>,
                          \<lparr>role = asc ''user'', content = render_results env results\<rparr>]) w2") auto
          from assms bm co r v ex ne et rs ok len results False it show thesis
            by (intro continue [of reply w1 calls rs w2 later]) auto
        qed
      qed
    qed
  qed
qed

lemma split_past_prefix:
  "xs @ ys = pre @ e # post \<Longrightarrow> e \<notin> set xs \<Longrightarrow> \<exists>pre2. pre = xs @ pre2 \<and> ys = pre2 @ e # post"
proof (induction xs arbitrary: pre)
  case Nil
  then show ?case by simp
next
  case (Cons x xs)
  from Cons.prems obtain pre1 where p: "pre = x # pre1" "xs @ ys = pre1 @ e # post"
    by (cases pre) auto
  from Cons.IH [OF p(2)] Cons.prems(2) p(1) show ?case by auto
qed

lemma tool_events_kind: "ev \<in> set (tool_events calls rs) \<Longrightarrow> is_tool_exec ev"
  by (auto simp: tool_events_def)

lemma not_in_tool_events:
  "\<not> is_tool_exec ev \<Longrightarrow> ev \<notin> set (tool_events calls rs)"
  using tool_events_kind by blast

lemma foldl_append_concat:
  "foldl (\<lambda>acc x. acc @ f x) init xs = init @ concat (map f xs)"
  by (induction xs arbitrary: init) simp_all

lemma build_message_later:
  "0 < i \<Longrightarrow> build_message i um h
     = (um @ context_header @ concat (map render_turn (last_turns 4 h)), h)"
  by (simp add: build_message_def foldl_append_concat)

lemma build_message_first:
  "build_message 0 um h = (um, h @ [\<lparr>role = asc ''user'', content = um\<rparr>])"
  by (simp add: build_message_def)

lemma length_last_turns: "length (last_turns n h) \<le> n"
  by (simp add: last_turns_def)

lemma iterations_head:
  assumes "iterations env self sp B (i # rest) um h w = (res, w', tr)"
  shows "\<exists>r tl. tr = ModelCall (fst (build_message i um h)) r # tl"
  using assms by (rule iterations_step) auto

text \<open>A failed model call is the last thing a run does.\<close>

lemma failed_call_ends_iterations:
  assumes "iterations env self sp B is um h w = (res, w', tr)"
      and "tr = pre @ e # post" and "is_failed_call e"
  shows "post = [] \<and> res = Return (PStr (failure_report e))"
  using assms
proof (induction "is" arbitrary: um h w res w' tr pre)
  case Nil
  then show ?case by simp
next
  case (Cons i rest)
  from Cons.prems(1) show ?case
  proof (rule iterations_step)
    fix e0 w1
    assume "res = Return (PStr (ollama_error_prefix @ e0))"
      and "tr = [ModelCall (fst (build_message i um h)) (Inl e0)]"
    with Cons.prems(2) show ?thesis
      by (cases pre) auto
  next
    fix v w1
    assume "tr = [ModelCall (fst (build_message i um h)) (Inr v)]"
    with Cons.prems(2,3) show ?thesis
      by (cases pre) auto
  next
    fix reply w1 calls rs
    assume tr: "tr = ModelCall (fst (build_message i um h)) (Inr (PStr reply)) # tool_events calls rs"
    with Cons.prems(2) have
      "e = ModelCall (fst (build_message i um h)) (Inr (PStr reply)) \<or> e \<in> set (tool_events calls rs)"
      by (cases pre) auto
    with Cons.prems(3) tool_events_kind [of e calls rs] show ?thesis
      by (cases e) auto
  next
    fix reply w1 calls rs w2 fr
    assume res: "res = final_outcome fr"
      and tr: "tr = ModelCall (fst (build_message i um h)) (Inr (PStr reply)) # tool_events calls rs
              @ [FinalCall (render_results env (tool_results_of env calls rs)) fr]"
    from tr Cons.prems(2,3) obtain pre1 where
      p1: "pre = ModelCall (fst (build_message i um h)) (Inr (PStr reply)) # pre1"
          "tool_events calls rs @ [FinalCall (render_results env (tool_results_of env calls rs)) fr]
             = pre1 @ e # post"
      by (cases pre) auto
    have "e \<notin> set (tool_events calls rs)"
      using Cons.prems(3) by (intro not_in_tool_events) (cases e, auto)
    from split_past_prefix [OF p1(2) this] obtain pre2 where
      "[FinalCall (render_results env (tool_results_of env calls rs)) fr] = pre2 @ e # post"
      by blast
    then have "post = []" "e = FinalCall (render_results env (tool_results_of env calls rs)) fr"
      by (cases pre2; simp)+
    with res Cons.prems(3) show ?thesis
      by (cases fr) (auto simp: final_outcome_def)
  next
    fix reply w1 calls rs w2 later
    assume it: "iterations env self sp B rest (render_results env (tool_results_of env calls rs))
         (snd (build_message i um h) @
            [\<lparr>role = asc ''assistant'', content = reply\<rparr>,
             \<lparr>role = asc ''user'', content = render_results env (tool_results_of env calls rs)\<rparr>])
         w2 = (res, w', later)"
      and tr: "tr = ModelCall (fst (build_message i um h)) (Inr (PStr reply)) # tool_events calls rs @ later"
    from tr Cons.prems(2,3) obtain pre1 where
      p1: "pre = ModelCall (fst (build_message i um h)) (Inr (PStr reply)) # pre1"
          "tool_events calls rs @ later = pre1 @ e # post"
      by (cases pre) auto
    have "e \<notin> set (tool_events calls rs)"
      using Cons.prems(3) by (intro not_in_tool_events) (cases e, auto)
    from split_past_prefix [OF p1(2) this] obtain pre2 where
      "later = pre2 @ e # post"
      by blast
    from Cons.IH [OF it this Cons.prems(3)] show ?thesis .
  qed
qed

lemma filter_tool_events [simp]:
  "filter is_loop_call (tool_events calls rs) = []"
  "filter is_final_call (tool_events calls rs) = []"
  by (auto simp: tool_events_def filter_empty_conv)

lemma keeps_asking_tool_events [simp]: "list_all (keeps_asking (interp env)) (tool_events calls rs)"
  by (auto simp: tool_events_def list_all_iff)

lemma final_not_in_tool_events [simp]: "FinalCall p r \<notin> set (tool_events calls rs)"
  by (auto simp: tool_events_def)

lemma loop_not_in_tool_events [simp]: "ModelCall p r \<notin> set (tool_events calls rs)"
  by (auto simp: tool_events_def)

lemma wants_tools_iff:
  "wants_tools (interp env) (Inr (PStr reply)) = (\<exists>calls. extract_tool_calls (interp env) reply = Inr calls \<and> calls \<noteq> [])"
  by (auto simp: wants_tools_def split: sum.splits list.splits)

text \<open>
  The iterations \<open>k, ..., B - 1\<close>: at most one model call each, at most one forced call,
  which comes last, after all of them, and which is reached when every reply asks for
  tools and no exception leaves the run.
\<close>

lemma iterations_budget:
  assumes "iterations env self sp B [k..<nat B] um h w = (res, w', tr)"
  shows "length (filter is_loop_call tr) \<le> nat B - k
       \<and> length (filter is_final_call tr) \<le> 1
       \<and> (\<forall>p r. FinalCall p r \<in> set tr \<longrightarrow>
             (\<exists>pre. tr = pre @ [FinalCall p r] \<and> filter is_final_call pre = [])
             \<and> length (filter is_loop_call tr) = nat B - k \<and> res = final_outcome r)
       \<and> (k < nat B \<and> list_all (keeps_asking (interp env)) tr \<and> (\<exists>v. res = Return v)
            \<longrightarrow> (\<exists>p r. FinalCall p r \<in> set tr))"
  using assms
proof (induction "nat B - k" arbitrary: k um h w res w' tr)
  case 0
  then have nk: "\<not> k < nat B" and "[k..<nat B] = []" by simp_all
  with "0.prems" show ?case by simp
next
  case (Suc n)
  from Suc.hyps(2) have k: "k < nat B" and n: "n = nat B - Suc k" by simp_all
  from k have range: "[k..<nat B] = k # [Suc k..<nat B]" by (rule upt_conv_Cons)
  from k have last: "(int k = B - 1) = (Suc k = nat B)" by auto
  from Suc.prems [unfolded range] show ?case
  proof (rule iterations_step)
    fix e w1
    assume "tr = [ModelCall (fst (build_message k um h)) (Inl e)]"
    with k show ?thesis by (simp add: wants_tools_def)
  next
    fix v w1
    assume "tr = [ModelCall (fst (build_message k um h)) (Inr v)]" "\<not> wants_tools (interp env) (Inr v)"
    with k show ?thesis by simp
  next
    fix reply w1 calls rs
    assume "res = Raise UnicodeEncodeError"
      and "tr = ModelCall (fst (build_message k um h)) (Inr (PStr reply)) # tool_events calls rs"
    with k show ?thesis by simp
  next
    fix reply w1 calls rs w2 fr
    assume "int k = B - 1" "res = final_outcome fr"
      and tr: "tr = ModelCall (fst (build_message k um h)) (Inr (PStr reply)) # tool_events calls rs
              @ [FinalCall (render_results env (tool_results_of env calls rs)) fr]"
    with last k show ?thesis by auto
  next
    fix reply w1 calls rs w2 later
    assume nl: "int k \<noteq> B - 1"
      and it: "iterations env self sp B [Suc k..<nat B] (render_results env (tool_results_of env calls rs))
         (snd (build_message k um h) @
            [\<lparr>role = asc ''assistant'', content = reply\<rparr>,
             \<lparr>role = asc ''user'', content = render_results env (tool_results_of env calls rs)\<rparr>])
         w2 = (res, w', later)"
      and tr: "tr = ModelCall (fst (build_message k um h)) (Inr (PStr reply)) # tool_events calls rs @ later"
    from nl last k have k2: "Suc k < nat B" by simp
    note IH = Suc.hyps(1) [OF n it]
    from IH have ih1: "length (filter is_loop_call later) \<le> nat B - Suc k"
      and ih2: "length (filter is_final_call later) \<le> 1"
      by blast+
    have a: "length (filter is_loop_call tr) \<le> nat B - k"
      using ih1 k2 by (simp add: tr)
    have b: "length (filter is_final_call tr) \<le> 1"
      using ih2 by (simp add: tr)
    have c: "(\<exists>pre. tr = pre @ [FinalCall p r] \<and> filter is_final_call pre = [])
             \<and> length (filter is_loop_call tr) = nat B - k \<and> res = final_outcome r"
      if "FinalCall p r \<in> set tr" for p r
    proof -
      from that tr have m: "FinalCall p r \<in> set later" by simp
      with IH obtain pre where pre: "later = pre @ [FinalCall p r]" "filter is_final_call pre = []"
        and len: "length (filter is_loop_call later) = nat B - Suc k" and res: "res = final_outcome r"
        by blast
      let ?pre = "ModelCall (fst (build_message k um h)) (Inr (PStr reply)) # tool_events calls rs @ pre"
      have "tr = ?pre @ [FinalCall p r] \<and> filter is_final_call ?pre = []"
        using tr pre by simp
      moreover have "length (filter is_loop_call tr) = nat B - k"
        using tr len k2 by simp
      ultimately show ?thesis using res by blast
    qed
    have d: "\<exists>p r. FinalCall p r \<in> set tr"
      if "list_all (keeps_asking (interp env)) tr" and "\<exists>v. res = Return v"
    proof -
      from that(1) tr have "list_all (keeps_asking (interp env)) later" by simp
      with IH k2 that(2) obtain p r where "FinalCall p r \<in> set later" by blast
      with tr show ?thesis by auto
    qed
    from a b c d show ?thesis by blast
  qed
qed

text \<open>
  After a reply that asks for tools, every call is executed, in order, and a model call
  follows whose prompt starts with the results of the round.
\<close>

lemma iterations_round:
  assumes "iterations env self sp B [k..<nat B] um h w = (res, w', tr)"
      and "tr = pre @ ModelCall p (Inr (PStr reply)) # post"
      and "extract_tool_calls (interp env) reply = Inr calls" and "calls \<noteq> []"
      and "res \<noteq> Raise UnicodeEncodeError"
  shows "\<exists>rs nxt post'. length rs = length calls
           \<and> post = tool_events calls rs @ nxt # post'
           \<and> ((\<exists>fr. nxt = FinalCall (render_results env (tool_results_of env calls rs)) fr)
              \<or> (\<exists>ctx r'. nxt = ModelCall (render_results env (tool_results_of env calls rs) @ ctx) r'))"
  using assms(1,2,5)
proof (induction "nat B - k" arbitrary: k um h w res w' tr pre)
  case 0
  then have "[k..<nat B] = []" by simp
  with "0.prems" show ?case by simp
next
  case (Suc n)
  from Suc.hyps(2) have k: "k < nat B" and n: "n = nat B - Suc k" by simp_all
  from k have range: "[k..<nat B] = k # [Suc k..<nat B]" by (rule upt_conv_Cons)
  from k have last: "(int k = B - 1) = (Suc k = nat B)" by auto
  let ?e = "ModelCall p (Inr (PStr reply))"
  have wt: "wants_tools (interp env) (Inr (PStr reply))"
    using assms(3,4) by (auto simp: wants_tools_iff)
  from Suc.prems(1) [unfolded range] show ?case
  proof (rule iterations_step)
    fix e w1
    assume "tr = [ModelCall (fst (build_message k um h)) (Inl e)]"
    with Suc.prems(2) show ?thesis by (cases pre) auto
  next
    fix v w1
    assume "tr = [ModelCall (fst (build_message k um h)) (Inr v)]" "\<not> wants_tools (interp env) (Inr v)"
    with Suc.prems(2) wt show ?thesis by (cases pre) auto
  next
    fix reply0 w1 calls0 rs
    assume res: "res = Raise UnicodeEncodeError"
      and tr: "tr = ModelCall (fst (build_message k um h)) (Inr (PStr reply0)) # tool_events calls0 rs"
    show ?thesis
    proof (cases pre)
      case Nil
      with res Suc.prems(3) show ?thesis by simp
    next
      case (Cons x pre1)
      with tr Suc.prems(2) have "tool_events calls0 rs = pre1 @ ?e # post" by simp
      then have "?e \<in> set (tool_events calls0 rs)" by simp
      then show ?thesis by simp
    qed
  next
    fix reply0 w1 calls0 rs w2 fr
    assume ex: "extract_tool_calls (interp env) reply0 = Inr calls0" and len: "length rs = length calls0"
      and tr: "tr = ModelCall (fst (build_message k um h)) (Inr (PStr reply0)) # tool_events calls0 rs
              @ [FinalCall (render_results env (tool_results_of env calls0 rs)) fr]"
    show ?thesis
    proof (cases pre)
      case Nil
      with tr Suc.prems(2) have "reply = reply0"
        and post: "post = tool_events calls0 rs @ [FinalCall (render_results env (tool_results_of env calls0 rs)) fr]"
        by auto
      with ex assms(3) have "calls0 = calls" by simp
      with post len show ?thesis by auto
    next
      case (Cons x pre1)
      with tr Suc.prems(2) have
        "tool_events calls0 rs @ [FinalCall (render_results env (tool_results_of env calls0 rs)) fr]
           = pre1 @ ?e # post"
        by simp
      from split_past_prefix [OF this] obtain pre2 where
        "[FinalCall (render_results env (tool_results_of env calls0 rs)) fr] = pre2 @ ?e # post"
        by auto
      then show ?thesis by (cases pre2) auto
    qed
  next
    fix reply0 w1 calls0 rs w2 later
    assume ex: "extract_tool_calls (interp env) reply0 = Inr calls0" and len: "length rs = length calls0"
      and nl: "int k \<noteq> B - 1"
      and it: "iterations env self sp B [Suc k..<nat B] (render_results env (tool_results_of env calls0 rs))
         (snd (build_message k um h) @
            [\<lparr>role = asc ''assistant'', content = reply0\<rparr>,
             \<lparr>role = asc ''user'', content = render_results env (tool_results_of env calls0 rs)\<rparr>])
         w2 = (res, w', later)"
      and tr: "tr = ModelCall (fst (build_message k um h)) (Inr (PStr reply0)) # tool_events calls0 rs @ later"
    from nl last k have k2: "Suc k < nat B" by simp
    show ?thesis
    proof (cases pre)
      case Nil
      with tr Suc.prems(2) have "reply = reply0"
        and post: "post = tool_events calls0 rs @ later"
        by auto
      with ex assms(3) have c: "calls0 = calls" by simp
      from k2 have "[Suc k..<nat B] = Suc k # [Suc (Suc k)..<nat B]" by (rule upt_conv_Cons)
      from iterations_head [OF it [unfolded this]] obtain r' tl where
        "later = ModelCall (fst (build_message (Suc k) (render_results env (tool_results_of env calls0 rs))
           (snd (build_message k um h) @
            [\<lparr>role = asc ''assistant'', content = reply0\<rparr>,
             \<lparr>role = asc ''user'', content = render_results env (tool_results_of env calls0 rs)\<rparr>]))) r' # tl"
        by blast
      then obtain ctx where
        "later = ModelCall (render_results env (tool_results_of env calls0 rs) @ ctx) r' # tl"
        by (simp add: build_message_later)
      with post len c show ?thesis by auto
    next
      case (Cons x pre1)
      with tr Suc.prems(2) have "tool_events calls0 rs @ later = pre1 @ ?e # post"
        by simp
      from split_past_prefix [OF this] obtain pre2 where "later = pre2 @ ?e # post"
        by auto
      from Suc.hyps(1) [OF n it this Suc.prems(3)] show ?thesis .
    qed
  qed
qed

text \<open>
  Every model call of the loop but the first comes right after a round of tool calls,
  and its prompt is built from the results of that round, in place of the user message,
  and from the history as it is then.
\<close>

lemma history_after_tool_events:
  "length rs = length calls \<Longrightarrow>
   history_after env h (Some (reply, acc)) (tool_events calls rs @ evs)
     = history_after env h (Some (reply, acc @ tool_results_of env calls rs)) evs"
proof (induction calls arbitrary: rs acc)
  case Nil
  then show ?case by (simp add: tool_events_def tool_results_of_def)
next
  case (Cons tc tcs)
  then obtain r rs' where rs: "rs = r # rs'" "length rs' = length tcs"
    by (cases rs) auto
  have "tool_events (tc # tcs) rs = ToolExec (tc_tool tc) (tc_args tc) r # tool_events tcs rs'"
    by (simp add: tool_events_def rs)
  moreover have "tool_results_of env (tc # tcs) rs
      = \<lparr>tr_tool = tc_tool tc, tr_result = result_text env r\<rparr> # tool_results_of env tcs rs'"
    by (simp add: tool_results_of_def rs)
  ultimately show ?case using Cons.IH [OF rs(2)] by simp
qed

lemma history_after_flush:
  "evs = [] \<or> (\<exists>p r evs'. evs = ModelCall p r # evs') \<Longrightarrow>
   history_after env h cur evs = history_after env (flush_round env h cur) None evs"
  by (auto simp: flush_round_def)

lemma tool_results_of_nonempty:
  "calls \<noteq> [] \<Longrightarrow> length rs = length calls \<Longrightarrow> tool_results_of env calls rs \<noteq> []"
  by (cases calls; cases rs) (auto simp: tool_results_of_def)

lemma history_after_round:
  assumes "calls \<noteq> []" "length rs = length calls"
      and "evs = [] \<or> (\<exists>p r evs'. evs = ModelCall p r # evs')"
  shows "history_after env h None (ModelCall q (Inr (PStr reply)) # tool_events calls rs @ evs)
       = history_after env
           (h @ [\<lparr>role = asc ''assistant'', content = reply\<rparr>,
                 \<lparr>role = asc ''user'', content = render_results env (tool_results_of env calls rs)\<rparr>])
           None evs"
proof -
  have "history_after env h None (ModelCall q (Inr (PStr reply)) # tool_events calls rs @ evs)
      = history_after env h (Some (reply, [])) (tool_events calls rs @ evs)"
    by (simp add: flush_round_def)
  also have "\<dots> = history_after env h (Some (reply, tool_results_of env calls rs)) evs"
    using history_after_tool_events [OF assms(2), of env h reply "[]" evs] by simp
  also have "\<dots> = history_after env (flush_round env h (Some (reply, tool_results_of env calls rs))) None evs"
    using assms(3) by (rule history_after_flush)
  finally show ?thesis
    using tool_results_of_nonempty [OF assms(1,2), of env] by (simp add: flush_round_def)
qed

lemma snd_build_message:
  "snd (build_message i um h) = (if i = 0 then h @ [\<lparr>role = asc ''user'', content = um\<rparr>] else h)"
  by (simp add: build_message_def)

lemma iterations_prompts:
  assumes "iterations env self sp B [k..<nat B] um h w = (res, w', tr)"
      and "tr = pre @ ModelCall p r # post"
  shows "(pre = [] \<and> p = fst (build_message k um h))
       \<or> (\<exists>pre' calls rs i. pre = pre' @ tool_events calls rs \<and> calls \<noteq> []
             \<and> length rs = length calls \<and> 0 < i
             \<and> p = fst (build_message i (render_results env (tool_results_of env calls rs))
                     (history_after env (snd (build_message k um h)) None pre)))"
  using assms
proof (induction "nat B - k" arbitrary: k um h w res w' tr pre)
  case 0
  then have "[k..<nat B] = []" by simp
  with "0.prems" show ?case by simp
next
  case (Suc n)
  from Suc.hyps(2) have k: "k < nat B" and n: "n = nat B - Suc k" by simp_all
  from k have range: "[k..<nat B] = k # [Suc k..<nat B]" by (rule upt_conv_Cons)
  let ?e = "ModelCall p r"
  from Suc.prems(1) [unfolded range] show ?case
  proof (rule iterations_step)
    fix e w1
    assume "tr = [ModelCall (fst (build_message k um h)) (Inl e)]"
    with Suc.prems(2) show ?thesis by (cases pre) auto
  next
    fix v w1
    assume "tr = [ModelCall (fst (build_message k um h)) (Inr v)]"
    with Suc.prems(2) show ?thesis by (cases pre) auto
  next
    fix reply0 w1 calls0 rs0
    assume tr: "tr = ModelCall (fst (build_message k um h)) (Inr (PStr reply0)) # tool_events calls0 rs0"
    show ?thesis
    proof (cases pre)
      case Nil
      with tr Suc.prems(2) show ?thesis by auto
    next
      case (Cons x pre1)
      with tr Suc.prems(2) have "tool_events calls0 rs0 = pre1 @ ?e # post" by simp
      then have "?e \<in> set (tool_events calls0 rs0)" by simp
      then show ?thesis by simp
    qed
  next
    fix reply0 w1 calls0 rs0 w2 fr
    assume tr: "tr = ModelCall (fst (build_message k um h)) (Inr (PStr reply0)) # tool_events calls0 rs0
              @ [FinalCall (render_results env (tool_results_of env calls0 rs0)) fr]"
    show ?thesis
    proof (cases pre)
      case Nil
      with tr Suc.prems(2) show ?thesis by auto
    next
      case (Cons x pre1)
      with tr Suc.prems(2) have
        "tool_events calls0 rs0 @ [FinalCall (render_results env (tool_results_of env calls0 rs0)) fr]
           = pre1 @ ?e # post"
        by simp
      from split_past_prefix [OF this] obtain pre2 where
        "[FinalCall (render_results env (tool_results_of env calls0 rs0)) fr] = pre2 @ ?e # post"
        by auto
      then show ?thesis by (cases pre2) auto
    qed
  next
    fix reply0 w1 calls0 rs0 w2 later
    assume ne: "calls0 \<noteq> []" and len: "length rs0 = length calls0"
      and it: "iterations env self sp B [Suc k..<nat B] (render_results env (tool_results_of env calls0 rs0))
         (snd (build_message k um h) @
            [\<lparr>role = asc ''assistant'', content = reply0\<rparr>,
             \<lparr>role = asc ''user'', content = render_results env (tool_results_of env calls0 rs0)\<rparr>])
         w2 = (res, w', later)"
      and tr: "tr = ModelCall (fst (build_message k um h)) (Inr (PStr reply0)) # tool_events calls0 rs0 @ later"
    let ?R = "render_results env (tool_results_of env calls0 rs0)"
    let ?h1 = "snd (build_message k um h)"
    let ?h2 = "?h1 @ [\<lparr>role = asc ''assistant'', content = reply0\<rparr>,
                     \<lparr>role = asc ''user'', content = ?R\<rparr>]"
    let ?head = "ModelCall (fst (build_message k um h)) (Inr (PStr reply0))"
    show ?thesis
    proof (cases pre)
      case Nil
      with tr Suc.prems(2) show ?thesis by auto
    next
      case (Cons x pre1)
      note pre = Cons
      with tr Suc.prems(2) have x: "x = ?head"
        and "tool_events calls0 rs0 @ later = pre1 @ ?e # post"
        by simp_all
      from split_past_prefix [OF this(2)] obtain pre2 where
        p2: "pre1 = tool_events calls0 rs0 @ pre2" "later = pre2 @ ?e # post"
        by auto
      have pre_eq: "pre = ?head # tool_events calls0 rs0 @ pre2"
        using pre x p2(1) by simp
      have starts: "pre2 = [] \<or> (\<exists>q r' evs'. pre2 = ModelCall q r' # evs')"
      proof (cases pre2)
        case Nil
        then show ?thesis by simp
      next
        case (Cons y ys)
        from p2(2) have "later \<noteq> []" by simp
        with it have "[Suc k..<nat B] \<noteq> []" by auto
        then have "[Suc k..<nat B] = Suc k # [Suc (Suc k)..<nat B]"
          by (simp add: upt_conv_Cons)
        from iterations_head [OF it [unfolded this]] obtain q r' tl where "later = ModelCall q r' # tl"
          by blast
        with p2(2) Cons show ?thesis by auto
      qed
      have hist: "history_after env ?h1 None pre = history_after env ?h2 None pre2"
        unfolding pre_eq using ne len starts by (rule history_after_round)
      have later_h: "snd (build_message (Suc k) ?R ?h2) = ?h2"
        by (simp add: snd_build_message)
      from Suc.hyps(1) [OF n it p2(2)] show ?thesis
      proof
        assume a: "pre2 = [] \<and> p = fst (build_message (Suc k) ?R ?h2)"
        with hist have "history_after env ?h1 None pre = ?h2" by (simp add: flush_round_def)
        with a have "p = fst (build_message (Suc k) ?R (history_after env ?h1 None pre))"
          by simp
        moreover have "pre = [?head] @ tool_events calls0 rs0"
          using pre_eq a by simp
        ultimately show ?thesis using ne len by blast
      next
        assume "\<exists>pre' calls rs i. pre2 = pre' @ tool_events calls rs \<and> calls \<noteq> []
             \<and> length rs = length calls \<and> 0 < i
             \<and> p = fst (build_message i (render_results env (tool_results_of env calls rs))
                     (history_after env (snd (build_message (Suc k) ?R ?h2)) None pre2))"
        then obtain pre' calls rs i where
          b: "pre2 = pre' @ tool_events calls rs" "calls \<noteq> []" "length rs = length calls" "0 < i"
          "p = fst (build_message i (render_results env (tool_results_of env calls rs))
                     (history_after env (snd (build_message (Suc k) ?R ?h2)) None pre2))"
          by blast
        from b(5) later_h hist
        have "p = fst (build_message i (render_results env (tool_results_of env calls rs))
                     (history_after env ?h1 None pre))"
          by simp
        moreover have "pre = (?head # tool_events calls0 rs0 @ pre') @ tool_events calls rs"
          using pre_eq b(1) by simp
        ultimately show ?thesis using b(2,3,4) by blast
      qed
    qed
  qed
qed

text \<open>
  The budget of a whole run, whatever leaves it: at most \<open>B\<close> model calls in the loop
  and at most one forced call, which is made only after all \<open>B\<close> of them, is the last
  thing the run does and gives the result.
\<close>

lemma run_budget:
  assumes "query_ollama_with_tools env self um B w = (res, w', tr)"
  shows "length (filter is_loop_call tr) \<le> nat B
       \<and> length (filter is_final_call tr) \<le> 1
       \<and> (\<forall>p r. FinalCall p r \<in> set tr \<longrightarrow>
             (\<exists>pre. tr = pre @ [FinalCall p r] \<and> filter is_final_call pre = [])
             \<and> length (filter is_loop_call tr) = nat B \<and> res = final_outcome r)
       \<and> (1 \<le> B \<and> list_all (keeps_asking (interp env)) tr \<and> (\<exists>v. res = Return v)
            \<longrightarrow> (\<exists>p r. FinalCall p r \<in> set tr))"
proof -
  have "(1 \<le> B) = (0 < nat B)" by auto
  with iterations_budget [OF assms [unfolded query_ollama_with_tools_def]]
  show ?thesis by simp
qed

section \<open>The example sessions, run\<close>

lemma run_budget_one:
  "query_ollama_with_tools (scripted_env [says scenario_a, says answer]) example_client question 1 0
   = (Return (PStr answer), 2,
      [ModelCall question (Inr (PStr scenario_a)), sum_exec, FinalCall sum_round (Inr (PStr answer))])"
  by code_simp

lemma run_unknown_tool:
  "query_ollama_with_tools (scripted_env [says unknown_call, says answer]) example_client question 5 0
   = (Return (PStr answer), 2,
      [ModelCall question (Inr (PStr unknown_call)), unknown_exec,
       ModelCall unknown_prompt (Inr (PStr answer))])"
  by code_simp

lemma run_timeout:
  "query_ollama_with_tools (scripted_env [RequestFailed (asc ''timed out'')]) example_client question 5 0
   = (Return (PStr (ollama_error_prefix @ request_error_prefix @ asc ''timed out'')), 1,
      [ModelCall question (Inl (request_error_prefix @ asc ''timed out''))])"
  by code_simp

lemma interp_scripted_env: "interp (scripted_env script) = example_limits"
  by (simp add: scripted_env_def)

lemma extract_unknown_call:
  "extract_tool_calls example_limits unknown_call
     = Inr [\<lparr>tc_tool = PStr (asc ''nope''), tc_args = []\<rparr>]"
  by code_simp

lemma extract_scenario_a:
  "extract_tool_calls example_limits scenario_a
     = Inr [\<lparr>tc_tool = PStr (asc ''sum''), tc_args = [(asc ''a'', PInt 2), (asc ''b'', PInt 3)]\<rparr>]"
  by code_simp

text \<open>
  The text of scenario A has one candidate, and the narrowest limits under which it
  decodes are two containers, one inside the other, and integers of one digit.
\<close>

lemma finditer_scenario_a:
  \<open>finditer scenario_a = [asc ''{"tool": "sum", "args": {"a": 2, "b": 3}}'']\<close>
  by code_simp

lemma accepted_scenario_a:
  \<open>accepted \<lparr>recursion_depth = 2, int_max_str_digits = 1\<rparr>
     (asc ''{"tool": "sum", "args": {"a": 2, "b": 3}}'')
   = Some \<lparr>tc_tool = PStr (asc ''sum''), tc_args = [(asc ''a'', PInt 2), (asc ''b'', PInt 3)]\<rparr>\<close>
  by code_simp

lemma extract_scenario_a_limits:
  assumes "2 \<le> recursion_depth lim" and "digits_allowed lim 1"
  shows "extract_tool_calls lim scenario_a
     = Inr [\<lparr>tc_tool = PStr (asc ''sum''), tc_args = [(asc ''a'', PInt 2), (asc ''b'', PInt 3)]\<rparr>]"
proof -
  let ?lim0 = "\<lparr>recursion_depth = 2, int_max_str_digits = 1\<rparr>"
  have "digits_allowed lim k" if "digits_allowed ?lim0 k" for k
    using that assms(2) by (auto simp: digits_allowed_def)
  moreover have "recursion_depth ?lim0 \<le> recursion_depth lim"
    using assms(1) by simp
  ultimately have \<open>accepted lim (asc ''{"tool": "sum", "args": {"a": 2, "b": 3}}'')
      = Some \<lparr>tc_tool = PStr (asc ''sum''), tc_args = [(asc ''a'', PInt 2), (asc ''b'', PInt 3)]\<rparr>\<close>
    using accepted_scenario_a by (rule accepted_mono)
  then show ?thesis
    by (auto simp: extract_tool_calls_def finditer_scenario_a accepted_def
             split: sum.splits option.splits)
qed

text \<open>The malformed candidate of scenario E: nothing is extracted and the reply is the answer.\<close>

lemma extract_scenario_e: "extract_tool_calls example_limits scenario_e = Inr []"
  by code_simp

lemma run_malformed:
  "query_ollama_with_tools (scripted_env [says scenario_e]) example_client question 5 0
   = (Return (PStr scenario_e), 1, [ModelCall question (Inr (PStr scenario_e))])"
  by code_simp

section \<open>The claims\<close>

subsection \<open>C1: tool names and the registry\<close>

text \<open>
  C1 says that a tool call whose name is not in the registry never reaches the tool
  executor. The loop has no check against the registry: in the session below the
  registry has no tool \<open>nope\<close>, the model asks for it, and the executor is called with
  that name.
\<close>

theorem unknown_tool_is_invoked:
  "PStr (asc ''nope'') \<notin> set (registry_names example_client)
   \<and> ToolExec (PStr (asc ''nope'')) [] (Inl (asc ''Unknown tool''))
       \<in> set (snd (snd (query_ollama_with_tools (scripted_env [says unknown_call, says answer])
                          example_client question 5 0)))"
proof -
  have "PStr (asc ''nope'') \<notin> set (registry_names example_client)"
    by code_simp
  then show ?thesis
    by (simp add: run_unknown_tool unknown_exec_def)
qed

text \<open>
  C1, amended. Whatever the registry holds, in a run that does not end in a
  \<open>UnicodeEncodeError\<close> (which only a \<open>print\<close> of the loop over the tool calls raises),
  when a reply of the loop yields tool calls, every one of them is executed through the
  tool executor, in the order extracted, and a model call follows the round: its prompt
  starts with the results of the round, in which an exception of the executor is the
  text of the result (\<open>result_text\<close>).
\<close>

theorem tool_calls_all_executed:
  assumes "query_ollama_with_tools env self um B w = (res, w', tr)"
      and "tr = pre @ ModelCall p (Inr (PStr reply)) # post"
      and "extract_tool_calls (interp env) reply = Inr calls"
      and "calls \<noteq> []"
      and "res \<noteq> Raise UnicodeEncodeError"
  shows "\<exists>rs nxt post'. length rs = length calls
           \<and> post = tool_events calls rs @ nxt # post'
           \<and> ((\<exists>fr. nxt = FinalCall (render_results env (tool_results_of env calls rs)) fr)
              \<or> (\<exists>ctx r'. nxt = ModelCall (render_results env (tool_results_of env calls rs) @ ctx) r'))"
  using assms(1) [unfolded query_ollama_with_tools_def] assms(2,3,4,5)
  by (rule iterations_round)

theorem tool_calls_all_executed_witness:
  "query_ollama_with_tools (scripted_env [says unknown_call, says answer]) example_client question 5 0
     = (Return (PStr answer), 2,
        [ModelCall question (Inr (PStr unknown_call)), unknown_exec,
         ModelCall unknown_prompt (Inr (PStr answer))])
   \<and> [ModelCall question (Inr (PStr unknown_call)), unknown_exec,
       ModelCall unknown_prompt (Inr (PStr answer))]
      = [] @ ModelCall question (Inr (PStr unknown_call))
           # [unknown_exec, ModelCall unknown_prompt (Inr (PStr answer))]
   \<and> extract_tool_calls (interp (scripted_env [says unknown_call, says answer])) unknown_call
       = Inr [\<lparr>tc_tool = PStr (asc ''nope''), tc_args = []\<rparr>]
   \<and> [\<lparr>tc_tool = PStr (asc ''nope''), tc_args = []\<rparr>] \<noteq> []
   \<and> Return (PStr answer) \<noteq> Raise UnicodeEncodeError
   \<and> (\<exists>rs nxt post'. length rs = length [\<lparr>tc_tool = PStr (asc ''nope''), tc_args = []\<rparr>]
         \<and> [unknown_exec, ModelCall unknown_prompt (Inr (PStr answer))]
             = tool_events [\<lparr>tc_tool = PStr (asc ''nope''), tc_args = []\<rparr>] rs @ nxt # post'
         \<and> ((\<exists>fr. nxt = FinalCall (render_results (scripted_env [says unknown_call, says answer])
                 (tool_results_of (scripted_env [says unknown_call, says answer])
                    [\<lparr>tc_tool = PStr (asc ''nope''), tc_args = []\<rparr>] rs)) fr)
            \<or> (\<exists>ctx r'. nxt = ModelCall (render_results (scripted_env [says unknown_call, says answer])
                 (tool_results_of (scripted_env [says unknown_call, says answer])
                    [\<lparr>tc_tool = PStr (asc ''nope''), tc_args = []\<rparr>] rs) @ ctx) r')))"
proof -
  have h2: "[ModelCall question (Inr (PStr unknown_call)), unknown_exec,
       ModelCall unknown_prompt (Inr (PStr answer))]
      = [] @ ModelCall question (Inr (PStr unknown_call))
           # [unknown_exec, ModelCall unknown_prompt (Inr (PStr answer))]"
    by simp
  have h3: "extract_tool_calls (interp (scripted_env [says unknown_call, says answer])) unknown_call
       = Inr [\<lparr>tc_tool = PStr (asc ''nope''), tc_args = []\<rparr>]"
    by (simp add: interp_scripted_env extract_unknown_call)
  have h4: "[\<lparr>tc_tool = PStr (asc ''nope''), tc_args = []\<rparr>] \<noteq> []"
    by simp
  have h5: "Return (PStr answer) \<noteq> Raise UnicodeEncodeError"
    by simp
  note c = tool_calls_all_executed [OF run_unknown_tool h2 h3 h4 h5]
  show ?thesis
    by (rule conjI [OF run_unknown_tool conjI [OF h2 conjI [OF h3 conjI [OF h4 conjI [OF h5 c]]]]])
qed

subsection \<open>C2: a budget of one iteration\<close>

text \<open>
  C2 says that with \<open>max_iterations = 1\<close> there is exactly one model call and that tool
  calls in its reply are ignored. In the session below the reply asks for \<open>sum\<close>: the
  tool is executed, a second model call is made, and the answer returned is the second
  reply, not the first.
\<close>

theorem budget_one_runs_tools:
  "length (filter (\<lambda>e. is_loop_call e \<or> is_final_call e)
       (snd (snd (query_ollama_with_tools (scripted_env [says scenario_a, says answer])
                    example_client question 1 0)))) = 2
   \<and> filter is_tool_exec
       (snd (snd (query_ollama_with_tools (scripted_env [says scenario_a, says answer])
                    example_client question 1 0))) = [sum_exec]
   \<and> fst (query_ollama_with_tools (scripted_env [says scenario_a, says answer])
            example_client question 1 0) = Return (PStr answer)
   \<and> answer \<noteq> scenario_a"
proof -
  have "answer \<noteq> scenario_a" by code_simp
  then show ?thesis
    by (simp add: run_budget_one sum_exec_def)
qed

text \<open>
  C2, amended. With \<open>max_iterations = 1\<close>, a run that returns a value \<open>v\<close> (no exception
  leaves it) is one of three: the model call fails and \<open>v\<close> is the error message; the
  reply is a text that yields no tool call, it is the only thing the run does and \<open>v\<close> is
  the reply as it is; or the reply yields tool calls, each of them is executed once, in
  order, exactly one more model call is made, with the results message as its prompt,
  and \<open>v\<close> is what that call gives, as it is, tool calls in it ignored (the error message
  when that call fails).
\<close>

theorem budget_one_behaviour:
  assumes "query_ollama_with_tools env self um 1 w = (res, w', tr)"
      and "res = Return v"
  shows "(\<exists>e. tr = [ModelCall um (Inl e)] \<and> v = PStr (ollama_error_prefix @ e))
       \<or> (\<exists>reply. tr = [ModelCall um (Inr (PStr reply))]
              \<and> extract_tool_calls (interp env) reply = Inr [] \<and> v = PStr reply)
       \<or> (\<exists>reply calls rs fr. extract_tool_calls (interp env) reply = Inr calls \<and> calls \<noteq> []
              \<and> length rs = length calls
              \<and> tr = ModelCall um (Inr (PStr reply)) # tool_events calls rs
                       @ [FinalCall (render_results env (tool_results_of env calls rs)) fr]
              \<and> Return v = final_outcome fr)"
proof -
  have "[0..<nat 1] = [0]" by simp
  with assms(1) have it: "iterations env self (system_prompt_of env self) 1 [0] um [] w = (res, w', tr)"
    by (simp add: query_ollama_with_tools_def)
  have fm: "fst (build_message 0 um []) = um"
    by (simp add: build_message_first)
  from it show ?thesis
  proof (rule iterations_step)
    fix e w1
    assume "res = Return (PStr (ollama_error_prefix @ e))"
      and "tr = [ModelCall (fst (build_message 0 um [])) (Inl e)]"
    with fm assms(2) show ?thesis by simp
  next
    fix x w1
    assume nw: "\<not> wants_tools (interp env) (Inr x)"
      and tr: "tr = [ModelCall (fst (build_message 0 um [])) (Inr x)]"
      and res: "res = (case x of
                PStr t \<Rightarrow> (case extract_tool_calls (interp env) t of
                             Inl x \<Rightarrow> Raise x | Inr _ \<Rightarrow> Return x)
              | _ \<Rightarrow> Raise TypeError)"
    from res assms(2) obtain reply calls where x: "x = PStr reply"
      and ex: "extract_tool_calls (interp env) reply = Inr calls" and v: "v = PStr reply"
      by (auto split: pyval.splits sum.splits)
    from nw x ex have "calls = []"
      by (cases calls) (simp_all add: wants_tools_def)
    with tr fm x ex v show ?thesis by simp
  next
    fix reply w1 calls rs
    assume "res = Raise UnicodeEncodeError"
    with assms(2) show ?thesis by simp
  next
    fix reply w1 calls rs w2 fr
    assume "extract_tool_calls (interp env) reply = Inr calls" "calls \<noteq> []" "length rs = length calls"
      "res = final_outcome fr"
      "tr = ModelCall (fst (build_message 0 um [])) (Inr (PStr reply)) # tool_events calls rs
              @ [FinalCall (render_results env (tool_results_of env calls rs)) fr]"
    with fm assms(2) show ?thesis by auto
  next
    fix reply w1 calls rs w2 later
    assume "int 0 \<noteq> 1 - 1"
    then show ?thesis by simp
  qed
qed

theorem budget_one_behaviour_witness:
  "query_ollama_with_tools (scripted_env [says scenario_a, says answer]) example_client question 1 0
     = (Return (PStr answer), 2,
        [ModelCall question (Inr (PStr scenario_a)), sum_exec, FinalCall sum_round (Inr (PStr answer))])
   \<and> Return (PStr answer) = Return (PStr answer)
   \<and> ((\<exists>e. [ModelCall question (Inr (PStr scenario_a)), sum_exec, FinalCall sum_round (Inr (PStr answer))]
              = [ModelCall question (Inl e)]
            \<and> PStr answer = PStr (ollama_error_prefix @ e))
       \<or> (\<exists>reply. [ModelCall question (Inr (PStr scenario_a)), sum_exec,
                    FinalCall sum_round (Inr (PStr answer))]
              = [ModelCall question (Inr (PStr reply))]
              \<and> extract_tool_calls (interp (scripted_env [says scenario_a, says answer])) reply = Inr []
              \<and> PStr answer = PStr reply)
       \<or> (\<exists>reply calls rs fr.
              extract_tool_calls (interp (scripted_env [says scenario_a, says answer])) reply = Inr calls
              \<and> calls \<noteq> [] \<and> length rs = length calls
              \<and> [ModelCall question (Inr (PStr scenario_a)), sum_exec, FinalCall sum_round (Inr (PStr answer))]
                  = ModelCall question (Inr (PStr reply)) # tool_events calls rs
                       @ [FinalCall (render_results (scripted_env [says scenario_a, says answer])
                            (tool_results_of (scripted_env [says scenario_a, says answer]) calls rs)) fr]
              \<and> Return (PStr answer) = final_outcome fr))"
  by (rule conjI [OF run_budget_one conjI [OF refl budget_one_behaviour [OF run_budget_one refl]]])

subsection \<open>C3: what the extractor yields\<close>

text \<open>
  C3 says that every well-formed tool-call object in the text gives one tool call. The
  text below is such an object, for the registry tool \<open>search_duckduckgo\<close> with a string
  argument; \<open>json.loads\<close> decodes it as it stands. The extractor replaces the apostrophe
  in the argument by a double quote before decoding, the decoding fails, and no tool call
  is yielded.
\<close>

theorem apostrophe_call_is_lost:
  "PStr (asc ''search_duckduckgo'') \<in> set (registry_names example_client)
   \<and> json_loads example_limits search_call
       = Inr (PDict [(asc ''tool'', PStr (asc ''search_duckduckgo'')),
                     (asc ''args'', PDict [(asc ''query'', PStr (asc ''what'' @ [squote] @ asc ''s new''))])])
   \<and> extract_tool_calls example_limits search_call = Inr []"
  by code_simp

text \<open>
  C3, amended. On a text none of whose candidates (the matches of the brace pattern,
  from left to right) is nested too deep for \<open>json.loads\<close>, the extractor yields exactly
  one tool call for each candidate whose text, with every apostrophe replaced by a
  double quote, decodes to an object with a \<open>"tool"\<close> field, in the order of the
  candidates, and nothing else. For the text of scenario A it yields the single call of
  \<open>sum\<close> with \<open>a = 2\<close> and \<open>b = 3\<close>, under all limits that allow two containers, one
  inside the other, and integers of one digit.
\<close>

theorem extraction_by_candidates:
  "((\<forall>m \<in> set (finditer response). json_loads lim (replace_quotes m) \<noteq> Inl RecursionError)
      \<longrightarrow> extract_tool_calls lim response
            = Inr (List.map_filter (accepted lim) (finditer response)))
   \<and> (accepted lim c = Some tc) =
       (\<exists>d v. json_loads lim (replace_quotes c) = Inr (PDict d) \<and> map_of d (asc ''tool'') = Some v
          \<and> tc = \<lparr>tc_tool = v,
                  tc_args = (case map_of d (asc ''args'') of Some (PDict a) \<Rightarrow> a | _ \<Rightarrow> [])\<rparr>)
   \<and> (2 \<le> recursion_depth lim \<and> digits_allowed lim 1
      \<longrightarrow> extract_tool_calls lim scenario_a
            = Inr [\<lparr>tc_tool = PStr (asc ''sum''), tc_args = [(asc ''a'', PInt 2), (asc ''b'', PInt 3)]\<rparr>])"
  using extract_tool_calls_return [of response lim] accepted_iff [of lim c tc]
    extract_scenario_a_limits [of lim]
  by blast

theorem extraction_by_candidates_witness:
  \<open>finditer scenario_a = [asc ''{"tool": "sum", "args": {"a": 2, "b": 3}}'']
   \<and> json_loads example_limits (replace_quotes (asc ''{"tool": "sum", "args": {"a": 2, "b": 3}}''))
       = Inr (PDict [(asc ''tool'', PStr (asc ''sum'')),
                     (asc ''args'', PDict [(asc ''a'', PInt 2), (asc ''b'', PInt 3)])])
   \<and> extract_tool_calls example_limits scenario_a
       = Inr (List.map_filter (accepted example_limits) (finditer scenario_a))
   \<and> 2 \<le> recursion_depth example_limits \<and> digits_allowed example_limits 1
   \<and> extract_tool_calls example_limits scenario_a
       = Inr [\<lparr>tc_tool = PStr (asc ''sum''), tc_args = [(asc ''a'', PInt 2), (asc ''b'', PInt 3)]\<rparr>]\<close>
proof -
  have d: \<open>json_loads example_limits (replace_quotes (asc ''{"tool": "sum", "args": {"a": 2, "b": 3}}''))
       = Inr (PDict [(asc ''tool'', PStr (asc ''sum'')),
                     (asc ''args'', PDict [(asc ''a'', PInt 2), (asc ''b'', PInt 3)])])\<close>
    by code_simp
  have l: "2 \<le> recursion_depth example_limits \<and> digits_allowed example_limits 1"
    by (simp add: example_limits_def digits_allowed_def)
  from d have "\<forall>m \<in> set (finditer scenario_a).
      json_loads example_limits (replace_quotes m) \<noteq> Inl RecursionError"
    by (simp add: finditer_scenario_a)
  with extraction_by_candidates [of scenario_a example_limits] finditer_scenario_a d l
  show ?thesis by blast
qed

subsection \<open>C4: a failure of the model gateway\<close>

text \<open>
  C4. If a call of \<open>_call_ollama\<close> raises, in the loop or as the forced final call, the
  run ends there: that call is the last thing the run does (no retry, no tool execution
  after it) and the value returned is the error message made from the exception.
\<close>

theorem gateway_failure_is_terminal:
  assumes "query_ollama_with_tools env self um B w = (res, w', tr)"
      and "tr = pre @ e # post"
      and "is_failed_call e"
  shows "post = [] \<and> res = Return (PStr (failure_report e))"
  using assms(1) [unfolded query_ollama_with_tools_def] assms(2,3)
  by (rule failed_call_ends_iterations)

theorem gateway_failure_is_terminal_witness:
  "query_ollama_with_tools (scripted_env [RequestFailed (asc ''timed out'')]) example_client question 5 0
     = (Return (PStr (ollama_error_prefix @ request_error_prefix @ asc ''timed out'')), 1,
        [ModelCall question (Inl (request_error_prefix @ asc ''timed out''))])
   \<and> [ModelCall question (Inl (request_error_prefix @ asc ''timed out''))]
       = [] @ ModelCall question (Inl (request_error_prefix @ asc ''timed out'')) # []
   \<and> is_failed_call (ModelCall question (Inl (request_error_prefix @ asc ''timed out'')))
   \<and> ([] = ([] :: event list)
       \<and> Return (PStr (ollama_error_prefix @ request_error_prefix @ asc ''timed out''))
           = Return (PStr (failure_report (ModelCall question (Inl (request_error_prefix @ asc ''timed out''))))))"
proof -
  have h2: "[ModelCall question (Inl (request_error_prefix @ asc ''timed out''))]
       = [] @ ModelCall question (Inl (request_error_prefix @ asc ''timed out'')) # []"
    by simp
  have h3: "is_failed_call (ModelCall question (Inl (request_error_prefix @ asc ''timed out'')))"
    by simp
  note c = gateway_failure_is_terminal [OF run_timeout h2 h3]
  show ?thesis
    by (rule conjI [OF run_timeout conjI [OF h2 conjI [OF h3 c]]])
qed

subsection \<open>C5: what \<open>_call_ollama\<close> returns\<close>

text \<open>
  C5 says that an empty reply field gives the placeholder and that every response that
  decodes is returned without error. An empty \<open>"response"\<close> is returned as the empty
  string, and a body that decodes to a list raises.
\<close>

theorem empty_reply_is_not_replaced:
  "call_ollama (scripted_env [says []]) example_client 0 [] question = (Inr (PStr []), 1)
   \<and> PStr [] \<noteq> PStr empty_reply_placeholder
   \<and> call_ollama (scripted_env [Body (PList [])]) example_client 0 [] question
       = (Inl (request_error_prefix @ no_attribute_get (PList [])), 1)"
  by code_simp

text \<open>
  C5, amended. For every backend response whose body decodes to a JSON object,
  \<open>_call_ollama\<close> returns without error: the value of the \<open>"response"\<close> field as it is
  when the field is present, also when it is empty, and the placeholder string when the
  field is missing. Every other reply raises: a transport failure, and a body that
  decodes to something that is not an object.
\<close>

theorem call_ollama_on_decoded_body:
  assumes "http_post env w url
             \<lparr>payload_model = model self, payload_prompt = prompt,
              payload_system = system_prompt, payload_stream = False\<rparr> = (reply, w')"
  shows "(reply = Body (PDict d) \<longrightarrow>
            call_ollama env self w system_prompt prompt
              = (Inr (case map_of d (asc ''response'') of
                        None \<Rightarrow> PStr empty_reply_placeholder
                      | Some v \<Rightarrow> v), w'))
       \<and> ((\<forall>d'. reply \<noteq> Body (PDict d')) \<longrightarrow>
            (\<exists>e. call_ollama env self w system_prompt prompt = (Inl e, w')))"
  using assms
  by (auto simp: call_ollama_def ollama_result_def split: backend_reply.splits pyval.splits)

theorem call_ollama_on_decoded_body_witness:
  "http_post (scripted_env [says []]) 0 url
     \<lparr>payload_model = model example_client, payload_prompt = question,
      payload_system = [], payload_stream = False\<rparr>
     = (Body (PDict [(asc ''response'', PStr [])]), 1)
   \<and> call_ollama (scripted_env [says []]) example_client 0 [] question = (Inr (PStr []), 1)"
proof -
  have h: "http_post (scripted_env [says []]) 0 url
     \<lparr>payload_model = model example_client, payload_prompt = question,
      payload_system = [], payload_stream = False\<rparr>
     = (Body (PDict [(asc ''response'', PStr [])]), 1)"
    by (simp add: scripted_env_def scripted_post_def says_def)
  from call_ollama_on_decoded_body [OF h, of "[(asc ''response'', PStr [])]"] h
  show ?thesis by simp
qed

subsection \<open>C6: missing and malformed arguments\<close>



subsection \<open>C7: malformed text\<close>

text \<open>
  C7 says that the extractor raises on no text. The handler of the loop over the
  candidates names \<open>JSONDecodeError\<close>, \<open>ValueError\<close> and \<open>TypeError\<close>. \<open>json.loads\<close>
  raises \<open>RecursionError\<close> on a candidate that nests deeper than the interpreter allows,
  such as \<^verbatim>\<open>{"tool":[[...]]}\<close> with as many arrays as the limit or more: that
  exception leaves the extractor.
\<close>

theorem deep_candidate_leaves_extractor:
  assumes "recursion_depth lim \<le> k"
  shows "json_loads lim (replace_quotes (deep_candidate k)) = Inl RecursionError
       \<and> \<not> caught RecursionError
       \<and> extract_tool_calls lim (deep_candidate k) = Inl RecursionError"
  using json_loads_deep_candidate [OF assms] extract_deep_candidate [OF assms]
  by (simp add: replace_quotes_deep_candidate caught_def)

theorem deep_candidate_leaves_extractor_witness:
  "recursion_depth example_limits \<le> 1000
   \<and> json_loads example_limits (replace_quotes (deep_candidate 1000)) = Inl RecursionError
   \<and> \<not> caught RecursionError
   \<and> extract_tool_calls example_limits (deep_candidate 1000) = Inl RecursionError"
proof -
  have h: "recursion_depth example_limits \<le> 1000"
    by (simp add: example_limits_def)
  show ?thesis
    by (rule conjI [OF h deep_candidate_leaves_extractor [OF h]])
qed

subsection \<open>C8: the iteration budget\<close>

text \<open>
  C8 says that on the last iteration the forced model call is made and its text returned,
  whatever the replies. The loop over the tool calls prints the name of each call before
  the \<open>try\<close> that guards its execution. In the session below the budget is one and the
  reply asks for a tool whose name is a lone surrogate: the \<open>print\<close> raises
  \<open>UnicodeEncodeError\<close>, and the run ends there, after its one model call, with that
  exception: no tool is executed, no forced call is made, no text is returned.
\<close>

theorem surrogate_name_aborts_run:
  "extract_tool_calls example_limits surrogate_call = Inr [\<lparr>tc_tool = PStr [55296], tc_args = []\<rparr>]
   \<and> query_ollama_with_tools (scripted_env [says surrogate_call, says answer])
       example_client question 1 0
     = (Raise UnicodeEncodeError, 1, [ModelCall question (Inr (PStr surrogate_call))])"
  by code_simp

subsection \<open>C9: the prompt of the later iterations\<close>

text \<open>
  C9 says that after the first iteration the prompt is the user message followed by
  the rendered context. The loop overwrites \<open>user_message\<close> with the results message of
  the round: in the session below the second prompt does not start with the user's
  message.
\<close>

theorem later_prompt_drops_user_message:
  "snd (snd (query_ollama_with_tools (scripted_env [says unknown_call, says answer])
               example_client question 5 0))
     = [ModelCall question (Inr (PStr unknown_call)), unknown_exec,
        ModelCall unknown_prompt (Inr (PStr answer))]
   \<and> \<not> prefix question unknown_prompt"
proof -
  have "\<not> prefix question unknown_prompt" by code_simp
  then show ?thesis by (simp add: run_unknown_tool)
qed

text \<open>
  C9, amended. Every model call of the loop after the first comes right after a round
  of tool executions, and its prompt is the results message of that round (which has
  taken the place of the user message), the context heading, and the rendering of at
  most the last 4 turns of the conversation history, which starts with the user's
  message and holds two turns for every round so far; each turn is rendered as its
  role, a colon and a space, the first 200 characters of its content at most, and the
  marker \<open>...\<close> with a line break, whether or not anything was cut. Building the
  prompt leaves the history as it is.
\<close>

theorem later_prompts_carry_results:
  assumes "query_ollama_with_tools env self um B w = (res, w', tr)"
      and "tr = pre @ ModelCall p r # post"
      and "pre \<noteq> []"
  shows "\<exists>pre' calls rs h i.
           pre = pre' @ tool_events calls rs \<and> calls \<noteq> [] \<and> length rs = length calls
           \<and> h = history_after env [\<lparr>role = asc ''user'', content = um\<rparr>] None pre
           \<and> 0 < i
           \<and> build_message i (render_results env (tool_results_of env calls rs)) h = (p, h)
           \<and> p = render_results env (tool_results_of env calls rs) @ context_header
                   @ concat (map render_turn (last_turns 4 h))
           \<and> length (last_turns 4 h) \<le> 4
           \<and> (\<forall>t \<in> set (last_turns 4 h).
                 render_turn t = role t @ asc '': '' @ take 200 (content t) @ asc ''...'' @ [10]
                 \<and> length (take 200 (content t)) \<le> 200)"
proof -
  let ?h = "history_after env [\<lparr>role = asc ''user'', content = um\<rparr>] None pre"
  have "snd (build_message 0 um []) = [\<lparr>role = asc ''user'', content = um\<rparr>]"
    by (simp add: build_message_first)
  with iterations_prompts [OF assms(1) [unfolded query_ollama_with_tools_def] assms(2)] assms(3)
  obtain pre' calls rs i where
    a: "pre = pre' @ tool_events calls rs" "calls \<noteq> []" "length rs = length calls"
    and pos: "0 < i"
    and p: "p = fst (build_message i (render_results env (tool_results_of env calls rs)) ?h)"
    by auto
  have b: "build_message i (render_results env (tool_results_of env calls rs)) ?h = (p, ?h)"
    using p build_message_later [OF pos] by simp
  have c: "p = render_results env (tool_results_of env calls rs) @ context_header
                   @ concat (map render_turn (last_turns 4 ?h))"
    using p build_message_later [OF pos] by simp
  have d: "\<forall>t \<in> set (last_turns 4 ?h).
                 render_turn t = role t @ asc '': '' @ take 200 (content t) @ asc ''...'' @ [10]
                 \<and> length (take 200 (content t)) \<le> 200"
    by (simp add: render_turn_def elision_def)
  from a pos b c d length_last_turns [of 4 ?h] show ?thesis by blast
qed

theorem later_prompts_carry_results_witness:
  "query_ollama_with_tools (scripted_env [says unknown_call, says answer]) example_client question 5 0
     = (Return (PStr answer), 2,
        [ModelCall question (Inr (PStr unknown_call)), unknown_exec,
         ModelCall unknown_prompt (Inr (PStr answer))])
   \<and> [ModelCall question (Inr (PStr unknown_call)), unknown_exec,
       ModelCall unknown_prompt (Inr (PStr answer))]
      = [ModelCall question (Inr (PStr unknown_call)), unknown_exec]
          @ ModelCall unknown_prompt (Inr (PStr answer)) # []
   \<and> [ModelCall question (Inr (PStr unknown_call)), unknown_exec] \<noteq> []
   \<and> (\<exists>pre' calls rs h i.
           [ModelCall question (Inr (PStr unknown_call)), unknown_exec] = pre' @ tool_events calls rs
           \<and> calls \<noteq> [] \<and> length rs = length calls
           \<and> h = history_after (scripted_env [says unknown_call, says answer])
                   [\<lparr>role = asc ''user'', content = question\<rparr>] None
                   [ModelCall question (Inr (PStr unknown_call)), unknown_exec]
           \<and> 0 < i
           \<and> build_message i (render_results (scripted_env [says unknown_call, says answer])
                 (tool_results_of (scripted_env [says unknown_call, says answer]) calls rs)) h = (unknown_prompt, h)
           \<and> unknown_prompt = render_results (scripted_env [says unknown_call, says answer])
                   (tool_results_of (scripted_env [says unknown_call, says answer]) calls rs) @ context_header
                   @ concat (map render_turn (last_turns 4 h))
           \<and> length (last_turns 4 h) \<le> 4
           \<and> (\<forall>t \<in> set (last_turns 4 h).
                 render_turn t = role t @ asc '': '' @ take 200 (content t) @ asc ''...'' @ [10]
                 \<and> length (take 200 (content t)) \<le> 200))
   \<and> history_after (scripted_env [says unknown_call, says answer])
         [\<lparr>role = asc ''user'', content = question\<rparr>] None
         [ModelCall question (Inr (PStr unknown_call)), unknown_exec]
       = [\<lparr>role = asc ''user'', content = question\<rparr>,
          \<lparr>role = asc ''assistant'', content = unknown_call\<rparr>,
          \<lparr>role = asc ''user'', content = unknown_round\<rparr>]"
proof -
  have h2: "[ModelCall question (Inr (PStr unknown_call)), unknown_exec,
       ModelCall unknown_prompt (Inr (PStr answer))]
      = [ModelCall question (Inr (PStr unknown_call)), unknown_exec]
          @ ModelCall unknown_prompt (Inr (PStr answer)) # []"
    by simp
  have h3: "[ModelCall question (Inr (PStr unknown_call)), unknown_exec] \<noteq> []"
    by simp
  have h4: "history_after (scripted_env [says unknown_call, says answer])
         [\<lparr>role = asc ''user'', content = question\<rparr>] None
         [ModelCall question (Inr (PStr unknown_call)), unknown_exec]
       = [\<lparr>role = asc ''user'', content = question\<rparr>,
          \<lparr>role = asc ''assistant'', content = unknown_call\<rparr>,
          \<lparr>role = asc ''user'', content = unknown_round\<rparr>]"
    by code_simp
  show ?thesis
    by (rule conjI [OF run_unknown_tool conjI [OF h2 conjI [OF h3
          conjI [OF later_prompts_carry_results [OF run_unknown_tool h2 h3] h4]]]])
qed

subsection \<open>C10: a budget that is not positive\<close>

text \<open>
  C10. With \<open>max_iterations \<le> 0\<close> the body of the loop never runs: no model call, no
  tool execution, nothing changes in the world, and the function returns \<open>None\<close>.
\<close>

theorem nonpositive_budget_returns_none:
  assumes "max_iterations \<le> 0"
  shows "query_ollama_with_tools env self user_message max_iterations w = (Return PNone, w, [])"
  using assms by (simp add: query_ollama_with_tools_def)

theorem nonpositive_budget_returns_none_witness:
  "(- 3 :: int) \<le> 0
   \<and> query_ollama_with_tools (scripted_env [says answer]) example_client question (- 3) 0
       = (Return PNone, 0, [])"
proof -
  have h: "(- 3 :: int) \<le> 0" by simp
  show ?thesis
    by (rule conjI [OF h nonpositive_budget_returns_none [OF h]])
qed

end
